theory Spec2Isabelle
  imports Main "HOL-Library.Word" "HOL-Library.Sublist" "HOL-Library.AList"
begin

section \<open>Strings and machine integers\<close>

text \<open>
  The preferences store of the DirectShow back end (\<^verbatim>\<open>preferences.cpp\<close>) builds registry
  keys as \<^verbatim>\<open>std::string\<close>s and hands them to the ANSI registry API. Strings are
  \<^typ>\<open>string\<close>; the separator of the key syntax is the backslash.
\<close>

abbreviation BSL :: char where
  "BSL \<equiv> CHR 0x5C"

abbreviation NUL :: char where
  "NUL \<equiv> CHR 0x00"

text \<open>\<^verbatim>\<open>s.c_str()\<close> read by a C API: the bytes up to the first NUL.\<close>

definition c_str :: "string \<Rightarrow> string" where
  "c_str s = takeWhile (\<lambda>c. c \<noteq> NUL) s"

definition digit_char :: "nat \<Rightarrow> char" where
  "digit_char d = ''0123456789'' ! d"

text \<open>\<^verbatim>\<open>std::to_string\<close> of a \<^verbatim>\<open>size_t\<close> and of an \<^verbatim>\<open>int\<close>: decimal digits, a minus sign
  for a negative \<^verbatim>\<open>int\<close>.\<close>

function to_string_nat :: "nat \<Rightarrow> string" where
  "to_string_nat n =
     (if n < 10 then [digit_char n]
      else to_string_nat (n div 10) @ [digit_char (n mod 10)])"
  by pat_completeness auto
termination
  by (relation "measure id") auto

declare to_string_nat.simps [simp del]

definition to_string_int :: "int \<Rightarrow> string" where
  "to_string_int i =
     (if i < 0 then CHR ''-'' # to_string_nat (nat (- i)) else to_string_nat (nat i))"

text \<open>
  The conversions the code writes between \<^verbatim>\<open>int\<close> (32 bits, two's complement),
  \<^verbatim>\<open>size_t\<close> (64 bits) and \<^verbatim>\<open>DWORD\<close> (32 bits). A value of type \<^verbatim>\<open>int\<close> is an
  \<^typ>\<open>int\<close> in the signed 32-bit range, a \<^verbatim>\<open>size_t\<close> a \<^typ>\<open>nat\<close> below \<open>2 ^ 64\<close>;
  arithmetic wraps.
\<close>

definition int_of_size_t :: "nat \<Rightarrow> int" where
  "int_of_size_t n = signed_take_bit 31 (int n)"

definition size_t_of_int :: "int \<Rightarrow> nat" where
  "size_t_of_int i = nat (i mod 2 ^ 64)"

definition int_add :: "int \<Rightarrow> int \<Rightarrow> int" where
  "int_add a b = signed_take_bit 31 (a + b)"

definition size_t_add :: "nat \<Rightarrow> nat \<Rightarrow> nat" where
  "size_t_add a b = (a + b) mod 2 ^ 64"

definition MAX_PATH :: nat where
  "MAX_PATH = 260"

section \<open>The key syntax\<close>

text \<open>\<^verbatim>\<open>#define REG_PREFIX "SOFTWARE\\Webcamoid\\VirtualCamera\\"\<close>\<close>

definition REG_PREFIX :: string where
  "REG_PREFIX = ''SOFTWARE'' @ [BSL] @ ''Webcamoid'' @ [BSL] @ ''VirtualCamera'' @ [BSL]"

text \<open>\<^verbatim>\<open>std::string::rfind(char)\<close>: the last position of the character, \<open>None\<close> for
  \<^verbatim>\<open>npos\<close>.\<close>

fun rfind :: "string \<Rightarrow> char \<Rightarrow> nat option" where
  "rfind [] c = None"
| "rfind (x # xs) c =
     (case rfind xs c of
        Some i \<Rightarrow> Some (Suc i)
      | None \<Rightarrow> if x = c then Some 0 else None)"

text \<open>
  \<^verbatim>\<open>splitSubKey(key, subKey, value)\<close> assigns \<^verbatim>\<open>subKey\<close> always and \<^verbatim>\<open>value\<close> unless the
  key ends with the separator; the second argument is the pair of strings the caller
  passes by reference, the result the pair after the call.
\<close>

definition splitSubKey :: "string \<Rightarrow> string \<times> string \<Rightarrow> string \<times> string" where
  "splitSubKey key out =
     (let subKey = REG_PREFIX in
      case rfind key BSL of
        None \<Rightarrow> (subKey, key)
      | Some separator \<Rightarrow>
          (subKey @ (BSL # take separator key),
           if separator + 1 < length key then drop (separator + 1) key else snd out))"

section \<open>The registry\<close>

text \<open>
  Modelled from the spec: the hierarchical key-value backend the store consumes (the
  Windows registry under \<^verbatim>\<open>HKEY_CURRENT_USER\<close>) and the two subtree helpers
  \<^verbatim>\<open>deleteTree\<close> and \<^verbatim>\<open>copyTree\<close> of the platform utilities are not part of the
  sources at hand. The backend is a finite table from container paths to containers, a
  container a finite table from value names to typed values. Containers are created
  implicitly, with their ancestors, when one is created, and disappear only through a
  subtree delete. A subkey string is parsed into its non-empty components; names are
  compared as written (the code spells each of its names in one way only). The spec's
  backend-unavailable failure is the list \<open>unavailable\<close>: the containers the backend
  refuses to open or create.
\<close>

datatype regval = REG_SZ string | REG_DWORD "32 word" | REG_BINARY string

type_synonym path = "string list"

type_synonym container = "(string \<times> regval) list"

record reg =
  keys :: "(path \<times> container) list"
  unavailable :: "path list"

datatype LSTATUS = ERROR_SUCCESS | ERROR_FAILURE

datatype rrf = RRF_RT_REG_SZ | RRF_RT_REG_DWORD

fun components :: "string \<Rightarrow> string \<Rightarrow> path" where
  "components cur [] = (if cur = [] then [] else [cur])"
| "components cur (c # cs) =
     (if c = BSL then (if cur = [] then components [] cs else cur # components [] cs)
      else components (cur @ [c]) cs)"

definition key_path :: "string \<Rightarrow> path" where
  "key_path subKey = components [] subKey"

definition RegOpenKeyExA :: "reg \<Rightarrow> string \<Rightarrow> path option" where
  "RegOpenKeyExA r subKey =
     (let p = key_path subKey in
      if p \<in> set (unavailable r) \<or> map_of (keys r) p = None then None else Some p)"

definition ensure_key :: "path \<Rightarrow> (path \<times> container) list \<Rightarrow> (path \<times> container) list" where
  "ensure_key p ks = (if map_of ks p = None then ks @ [(p, [])] else ks)"

definition create_path :: "path \<Rightarrow> (path \<times> container) list \<Rightarrow> (path \<times> container) list" where
  "create_path p ks = fold ensure_key (tl (prefixes p)) ks"

definition RegCreateKeyExA :: "reg \<Rightarrow> string \<Rightarrow> path option \<times> reg" where
  "RegCreateKeyExA r subKey =
     (let p = key_path subKey in
      if p \<in> set (unavailable r) then (None, r)
      else (Some p, r\<lparr>keys := create_path p (keys r)\<rparr>))"

text \<open>\<^verbatim>\<open>RegGetValueA\<close> on an open container: the value must exist, have the type the
  flags ask for and fit the buffer (a string with its terminating NUL).\<close>

definition RegGetValueA :: "reg \<Rightarrow> path \<Rightarrow> string \<Rightarrow> rrf \<Rightarrow> nat \<Rightarrow> regval option" where
  "RegGetValueA r hkey name flags dataSize =
     (case map_of (keys r) hkey of
        None \<Rightarrow> None
      | Some c \<Rightarrow>
          (case map_of c name of
             None \<Rightarrow> None
           | Some (REG_SZ s) \<Rightarrow>
               if flags = RRF_RT_REG_SZ \<and> length s + 1 \<le> dataSize then Some (REG_SZ s) else None
           | Some (REG_DWORD w) \<Rightarrow>
               if flags = RRF_RT_REG_DWORD \<and> 4 \<le> dataSize then Some (REG_DWORD w) else None
           | Some (REG_BINARY b) \<Rightarrow> None))"

definition RegSetValueExA :: "reg \<Rightarrow> path \<Rightarrow> string \<Rightarrow> regval \<Rightarrow> reg" where
  "RegSetValueExA r hkey name v =
     (case map_of (keys r) hkey of
        None \<Rightarrow> r
      | Some c \<Rightarrow> r\<lparr>keys := AList.update hkey (AList.update name v c) (keys r)\<rparr>)"

definition RegDeleteValueA :: "reg \<Rightarrow> path \<Rightarrow> string \<Rightarrow> reg" where
  "RegDeleteValueA r hkey name =
     (case map_of (keys r) hkey of
        None \<Rightarrow> r
      | Some c \<Rightarrow> r\<lparr>keys := AList.update hkey (AList.delete name c) (keys r)\<rparr>)"

text \<open>
  Modelled from the spec: \<^verbatim>\<open>deleteTree(HKEY_CURRENT_USER, subKey, KEY_WOW64_64KEY)\<close>
  deletes the entire container and everything beneath it, recursively; it does nothing
  when the container is unavailable.
\<close>

definition deleteTree :: "reg \<Rightarrow> string \<Rightarrow> reg" where
  "deleteTree r subKey =
     (let p = key_path subKey in
      if p \<in> set (unavailable r) then r
      else r\<lparr>keys := filter (\<lambda>(q, c). \<not> prefix p q) (keys r)\<rparr>)"

text \<open>
  Modelled from the spec: \<^verbatim>\<open>copyTree(hkeyFrom, nullptr, hkeyTo, KEY_WOW64_64KEY)\<close>
  recursively duplicates every value and nested container from source to destination,
  creates what is absent in the destination, and returns success or failure; a failed
  copy leaves the destination partially written. The containers of the source subtree
  are copied one after the other, from the contents the source had when the copy
  started; the copy stops with a failure at the first container that is unavailable on
  either side.
\<close>

definition put_container :: "path \<Rightarrow> container \<Rightarrow> (path \<times> container) list \<Rightarrow> (path \<times> container) list" where
  "put_container q c ks =
     (let ks' = create_path q ks in
      AList.update q (AList.merge (case map_of ks' q of None \<Rightarrow> [] | Some d \<Rightarrow> d) c) ks')"

fun copy_keys ::
  "(path \<times> container) list \<Rightarrow> path \<Rightarrow> path \<Rightarrow> path list \<Rightarrow> reg \<Rightarrow> LSTATUS \<times> reg" where
  "copy_keys snap src dst [] r = (ERROR_SUCCESS, r)"
| "copy_keys snap src dst (p # ps) r =
     (let q = dst @ drop (length src) p in
      if p \<in> set (unavailable r) \<or> q \<in> set (unavailable r) then (ERROR_FAILURE, r)
      else copy_keys snap src dst ps
             (r\<lparr>keys := put_container q (case map_of snap p of None \<Rightarrow> [] | Some c \<Rightarrow> c) (keys r)\<rparr>))"

definition copyTree :: "reg \<Rightarrow> path \<Rightarrow> path \<Rightarrow> LSTATUS \<times> reg" where
  "copyTree r hkeyFrom hkeyTo =
     copy_keys (keys r) hkeyFrom hkeyTo (filter (prefix hkeyFrom) (map fst (keys r))) r"

section \<open>Typed reads and writes\<close>

text \<open>\<^verbatim>\<open>setValue\<close>: a write whose container cannot be created is dropped.\<close>

definition setValue :: "string \<Rightarrow> regval \<Rightarrow> reg \<Rightarrow> reg" where
  "setValue key v r =
     (let (subKey, val) = splitSubKey key ([], []) in
      case RegCreateKeyExA r (c_str subKey) of
        (None, r') \<Rightarrow> r'
      | (Some hkey, r') \<Rightarrow> RegSetValueExA r' hkey (c_str val) v)"

text \<open>\<^verbatim>\<open>readValue\<close> returns \<^verbatim>\<open>false\<close> (\<open>None\<close>) or \<^verbatim>\<open>true\<close> with the data read.\<close>

definition readValue :: "string \<Rightarrow> rrf \<Rightarrow> nat \<Rightarrow> reg \<Rightarrow> regval option" where
  "readValue key dataTypeFlags dataSize r =
     (let (subKey, val) = splitSubKey key ([], []) in
      case RegOpenKeyExA r (c_str subKey) of
        None \<Rightarrow> None
      | Some hkey \<Rightarrow> RegGetValueA r hkey (c_str val) dataTypeFlags dataSize)"

definition write_string :: "string \<Rightarrow> string \<Rightarrow> reg \<Rightarrow> reg" where
  "write_string key value r = setValue key (REG_SZ value) r"

definition write_int :: "string \<Rightarrow> int \<Rightarrow> reg \<Rightarrow> reg" where
  "write_int key value r = setValue key (REG_DWORD (word_of_int value)) r"

text \<open>\<^verbatim>\<open>readString\<close> reads into a zeroed buffer of \<^verbatim>\<open>MAX_PATH\<close> bytes and returns the
  C string in it; \<^verbatim>\<open>readInt\<close> reads a \<^verbatim>\<open>DWORD\<close> and converts it to \<^verbatim>\<open>int\<close>.\<close>

definition readString :: "string \<Rightarrow> string \<Rightarrow> reg \<Rightarrow> string" where
  "readString key defaultValue r =
     (case readValue key RRF_RT_REG_SZ MAX_PATH r of
        None \<Rightarrow> defaultValue
      | Some (REG_SZ s) \<Rightarrow> c_str s
      | Some _ \<Rightarrow> [])"

definition readInt :: "string \<Rightarrow> int \<Rightarrow> reg \<Rightarrow> int" where
  "readInt key defaultValue r =
     (case readValue key RRF_RT_REG_DWORD 4 r of
        None \<Rightarrow> defaultValue
      | Some (REG_DWORD w) \<Rightarrow> sint w
      | Some _ \<Rightarrow> 0)"

definition deleteKey :: "string \<Rightarrow> reg \<Rightarrow> reg" where
  "deleteKey key r =
     (let (subKey, val) = splitSubKey key ([], []) in
      if val = [] then deleteTree r (c_str subKey)
      else case RegOpenKeyExA r (c_str subKey) of
             Some hkey \<Rightarrow> RegDeleteValueA r hkey (c_str val)
           | None \<Rightarrow> r)"

definition move :: "string \<Rightarrow> string \<Rightarrow> reg \<Rightarrow> reg" where
  "move keyFrom keyTo r =
     (let subKeyFrom = REG_PREFIX @ [BSL] @ keyFrom in
      case RegOpenKeyExA r (c_str subKeyFrom) of
        None \<Rightarrow> r
      | Some hkeyFrom \<Rightarrow>
          (let subKeyTo = REG_PREFIX @ [BSL] @ keyTo in
           case RegCreateKeyExA r (c_str subKeyTo) of
             (None, r1) \<Rightarrow> r1
           | (Some hkeyTo, r1) \<Rightarrow>
               (case copyTree r1 hkeyFrom hkeyTo of
                  (result, r2) \<Rightarrow>
                    if result = ERROR_SUCCESS then deleteKey keyFrom r2 else r2)))"

section \<open>The camera schema\<close>

text \<open>
  The header declares \<^verbatim>\<open>readInt(key, defaultValue = 0)\<close> and
  \<^verbatim>\<open>readString(key, defaultValue = {})\<close>; the calls without a second argument below read
  with these defaults. The string literals of the code that contain the separator are
  written out.
\<close>

definition Cameras_size :: string where
  "Cameras_size = ''Cameras'' @ [BSL] @ ''size''"

definition Cameras_sep :: string where
  "Cameras_sep = ''Cameras'' @ [BSL]"

definition Formats_sep :: string where
  "Formats_sep = [BSL] @ ''Formats'' @ [BSL]"

definition camerasCount :: "reg \<Rightarrow> nat" where
  "camerasCount r = size_t_of_int (readInt Cameras_size 0 r)"

definition cameraPath :: "nat \<Rightarrow> reg \<Rightarrow> string" where
  "cameraPath cameraIndex r =
     readString (Cameras_sep @ to_string_nat (size_t_add cameraIndex 1) @ [BSL] @ ''path'') [] r"

definition cameraDescription :: "nat \<Rightarrow> reg \<Rightarrow> string" where
  "cameraDescription cameraIndex r =
     (if cameraIndex \<ge> camerasCount r then []
      else readString (Cameras_sep @ to_string_nat (size_t_add cameraIndex 1) @ [BSL] @ ''description'')
             [] r)"

definition formatsCount :: "nat \<Rightarrow> reg \<Rightarrow> nat" where
  "formatsCount cameraIndex r =
     size_t_of_int
       (readInt (Cameras_sep @ to_string_nat (size_t_add cameraIndex 1) @ Formats_sep @ ''size'') 0 r)"

text \<open>\<^verbatim>\<open>cameraFromPath\<close>: the loop counter is a \<^verbatim>\<open>size_t\<close>, the result \<^verbatim>\<open>int(i)\<close>.\<close>

function cameraFromPath_loop :: "string \<Rightarrow> reg \<Rightarrow> nat \<Rightarrow> int" where
  "cameraFromPath_loop path r i =
     (if i < camerasCount r then
        (if cameraPath i r = path then int_of_size_t i
         else cameraFromPath_loop path r (i + 1))
      else - 1)"
  by pat_completeness auto
termination
  by (relation "measure (\<lambda>(path, r, i). camerasCount r - i)") auto

declare cameraFromPath_loop.simps [simp del]

definition cameraFromPath :: "string \<Rightarrow> reg \<Rightarrow> int" where
  "cameraFromPath path r = cameraFromPath_loop path r 0"

text \<open>
  \<^verbatim>\<open>cameraExists\<close>: the loop counter is a \<^verbatim>\<open>DWORD\<close>, compared with the \<^verbatim>\<open>size_t\<close>
  count; it wraps at \<open>2 ^ 32\<close>, so the loop need not end when the stored count reads as
  a negative \<^verbatim>\<open>int\<close>. \<open>None\<close> is the loop that never returns.
\<close>

partial_function (option) cameraExists_loop :: "string \<Rightarrow> reg \<Rightarrow> 32 word \<Rightarrow> bool option" where
  "cameraExists_loop path r i =
     (if unat i < camerasCount r then
        (if cameraPath (unat i) r = path then Some True
         else cameraExists_loop path r (i + 1))
      else Some False)"

declare cameraExists_loop.simps [code]

definition cameraExists :: "string \<Rightarrow> reg \<Rightarrow> bool option" where
  "cameraExists path r = cameraExists_loop path r 0"

text \<open>
  The device prefix \<^verbatim>\<open>DSHOW_PLUGIN_DEVICE_PREFIX\<close> and the identifier derivation
  \<^verbatim>\<open>createClsidFromStr\<close> are declared outside the sources at hand: they are parameters.
\<close>

record 'c platform =
  DSHOW_PLUGIN_DEVICE_PREFIX :: string
  createClsidFromStr :: "string \<Rightarrow> 'c"

function list_cameraPaths :: "reg \<Rightarrow> nat \<Rightarrow> string list \<Rightarrow> string list" where
  "list_cameraPaths r i cameraPaths =
     (if i < camerasCount r then list_cameraPaths r (i + 1) (cameraPaths @ [cameraPath i r])
      else cameraPaths)"
  by pat_completeness auto
termination
  by (relation "measure (\<lambda>(r, i, cameraPaths). camerasCount r - i)") auto

declare list_cameraPaths.simps [simp del]

text \<open>
  Modelled from the spec: \<^verbatim>\<open>listAllCameras\<close> is not part of the sources at hand; the
  spec takes the identifiers in use to be the derived identifiers of all registered
  paths.
\<close>

definition listAllCameras :: "'c platform \<Rightarrow> reg \<Rightarrow> 'c list" where
  "listAllCameras pl r = map (createClsidFromStr pl) (list_cameraPaths r 0 [])"

definition maxId :: int where
  "maxId = 64"

function probe_paths :: "'c platform \<Rightarrow> string list \<Rightarrow> 'c list \<Rightarrow> int \<Rightarrow> string" where
  "probe_paths pl cameraPaths cameraClsids i =
     (if i < maxId then
        (let path = DSHOW_PLUGIN_DEVICE_PREFIX pl @ to_string_int i;
             clsid = createClsidFromStr pl path
         in if path \<notin> set cameraPaths \<and> clsid \<notin> set cameraClsids then path
            else probe_paths pl cameraPaths cameraClsids (i + 1))
      else [])"
  by pat_completeness auto
termination
  by (relation "measure (\<lambda>(pl, cameraPaths, cameraClsids, i). nat (maxId - i))") auto

declare probe_paths.simps [simp del]

definition createDevicePath :: "'c platform \<Rightarrow> reg \<Rightarrow> string" where
  "createDevicePath pl r =
     (let cameraPaths = list_cameraPaths r 0 [];
          cameraClsids = listAllCameras pl r
      in probe_paths pl cameraPaths cameraClsids 0)"

text \<open>
  \<^verbatim>\<open>VideoFormat\<close> is declared outside the sources at hand. The store uses a format only
  through the four values it writes, the constructor call that rebuilds a format from
  the four values read, and the conversion to \<^verbatim>\<open>bool\<close>: these are parameters.
\<close>

record 'f video_format_ops =
  vf_format :: "'f \<Rightarrow> string"
  vf_width :: "'f \<Rightarrow> int"
  vf_height :: "'f \<Rightarrow> int"
  vf_fps :: "'f \<Rightarrow> string"
  vf_make :: "string \<Rightarrow> int \<Rightarrow> int \<Rightarrow> string \<Rightarrow> 'f"
  vf_bool :: "'f \<Rightarrow> bool"

text \<open>
  The loop that writes a format list is the same text in \<^verbatim>\<open>addCamera\<close>,
  \<^verbatim>\<open>cameraSetFormats\<close>, \<^verbatim>\<open>cameraAddFormat\<close> and \<^verbatim>\<open>cameraRemoveFormat\<close>, up to the
  expression for the camera's storage index, passed here as its text \<open>camera\<close>.
\<close>

function write_formats :: "'f video_format_ops \<Rightarrow> string \<Rightarrow> 'f list \<Rightarrow> nat \<Rightarrow> reg \<Rightarrow> reg" where
  "write_formats ops camera formats i r =
     (if i < length formats then
        (let format = formats ! i;
             prefix = Cameras_sep @ camera @ Formats_sep @ to_string_nat (i + 1);
             r = write_string (prefix @ [BSL] @ ''format'') (vf_format ops format) r;
             r = write_int (prefix @ [BSL] @ ''width'') (vf_width ops format) r;
             r = write_int (prefix @ [BSL] @ ''height'') (vf_height ops format) r;
             r = write_string (prefix @ [BSL] @ ''fps'') (vf_fps ops format) r
         in write_formats ops camera formats (i + 1) r)
      else r)"
  by pat_completeness auto
termination
  by (relation "measure (\<lambda>(ops, camera, formats, i, r). length formats - i)") auto

declare write_formats.simps [simp del]

definition addDevice :: "'c platform \<Rightarrow> string \<Rightarrow> reg \<Rightarrow> string \<times> reg" where
  "addDevice pl description r =
     (let path = createDevicePath pl r;
          cameraIndex = int_add (readInt Cameras_size 0 r) 1;
          r = write_int Cameras_size cameraIndex r;
          r = write_string (Cameras_sep @ to_string_int cameraIndex @ [BSL] @ ''description'')
                description r;
          r = write_string (Cameras_sep @ to_string_int cameraIndex @ [BSL] @ ''path'') path r
      in (path, r))"

definition addCamera_write ::
  "'c platform \<Rightarrow> 'f video_format_ops \<Rightarrow> string \<Rightarrow> string \<Rightarrow> 'f list \<Rightarrow> reg \<Rightarrow> string \<times> reg" where
  "addCamera_write pl ops path description formats r =
     (let path' = (if path = [] then createDevicePath pl r else path);
          cameraIndex = int_add (readInt Cameras_sep 0 r) 1;
          r = write_int Cameras_size cameraIndex r;
          r = write_string (Cameras_sep @ to_string_int cameraIndex @ [BSL] @ ''description'')
                description r;
          r = write_string (Cameras_sep @ to_string_int cameraIndex @ [BSL] @ ''path'') path' r;
          r = write_int (Cameras_sep @ to_string_int cameraIndex @ Formats_sep @ ''size'')
                (int_of_size_t (length formats)) r;
          r = write_formats ops (to_string_int cameraIndex) formats 0 r
      in (path', r))"

text \<open>\<^verbatim>\<open>addCamera(path, description, formats)\<close>: the guard, then the writes above. The
  result is the returned path and the store; \<open>None\<close> when the guard's loop never
  returns.\<close>

definition addCamera ::
  "'c platform \<Rightarrow> 'f video_format_ops \<Rightarrow> string \<Rightarrow> string \<Rightarrow> 'f list \<Rightarrow> reg
   \<Rightarrow> (string \<times> reg) option" where
  "addCamera pl ops path description formats r =
     (case (if path \<noteq> [] then cameraExists path r else Some False) of
        None \<Rightarrow> None
      | Some True \<Rightarrow> Some ([], r)
      | Some False \<Rightarrow> Some (addCamera_write pl ops path description formats r))"

definition cameraFormat :: "'f video_format_ops \<Rightarrow> nat \<Rightarrow> nat \<Rightarrow> reg \<Rightarrow> 'f" where
  "cameraFormat ops cameraIndex formatIndex r =
     (let prefix = Cameras_sep @ to_string_nat (size_t_add cameraIndex 1) @ Formats_sep
                   @ to_string_nat (size_t_add formatIndex 1);
          format = readString (prefix @ [BSL] @ ''format'') [] r;
          width = readInt (prefix @ [BSL] @ ''width'') 0 r;
          height = readInt (prefix @ [BSL] @ ''height'') 0 r;
          fps = readString (prefix @ [BSL] @ ''fps'') [] r
      in vf_make ops format width height fps)"

function cameraFormats_loop :: "'f video_format_ops \<Rightarrow> nat \<Rightarrow> reg \<Rightarrow> nat \<Rightarrow> 'f list \<Rightarrow> 'f list" where
  "cameraFormats_loop ops cameraIndex r i formats =
     (if i < formatsCount cameraIndex r then
        (let videoFormat = cameraFormat ops cameraIndex i r
         in cameraFormats_loop ops cameraIndex r (i + 1)
              (if vf_bool ops videoFormat then formats @ [videoFormat] else formats))
      else formats)"
  by pat_completeness auto
termination
  by (relation "measure (\<lambda>(ops, cameraIndex, r, i, formats). formatsCount cameraIndex r - i)") auto

declare cameraFormats_loop.simps [simp del]

definition cameraFormats :: "'f video_format_ops \<Rightarrow> nat \<Rightarrow> reg \<Rightarrow> 'f list" where
  "cameraFormats ops cameraIndex r = cameraFormats_loop ops cameraIndex r 0 []"

definition cameraSetFormats :: "'f video_format_ops \<Rightarrow> nat \<Rightarrow> 'f list \<Rightarrow> reg \<Rightarrow> reg" where
  "cameraSetFormats ops cameraIndex formats r =
     (if cameraIndex \<ge> camerasCount r then r
      else
        (let r = deleteKey (Cameras_sep @ to_string_nat (size_t_add cameraIndex 1) @ Formats_sep) r;
             r = write_int (Cameras_sep @ to_string_nat (size_t_add cameraIndex 1) @ Formats_sep @ ''size'')
                   (int_of_size_t (length formats)) r
         in write_formats ops (to_string_nat (size_t_add cameraIndex 1)) formats 0 r))"

text \<open>
  \<^verbatim>\<open>formats.insert(formats.begin() + index, format)\<close> and
  \<^verbatim>\<open>formats.erase(formats.begin() + index)\<close> on a vector, for an index inside the vector
  (the checks before them leave no other index while the vector's length fits an
  \<^verbatim>\<open>int\<close>).
\<close>

definition vector_insert :: "'a list \<Rightarrow> int \<Rightarrow> 'a \<Rightarrow> 'a list" where
  "vector_insert xs index x = take (nat index) xs @ x # drop (nat index) xs"

definition vector_erase :: "'a list \<Rightarrow> int \<Rightarrow> 'a list" where
  "vector_erase xs index = take (nat index) xs @ drop (nat index + 1) xs"

definition cameraAddFormat :: "'f video_format_ops \<Rightarrow> nat \<Rightarrow> 'f \<Rightarrow> int \<Rightarrow> reg \<Rightarrow> reg" where
  "cameraAddFormat ops cameraIndex format index r =
     (let formats = cameraFormats ops cameraIndex r;
          index = (if index < 0 \<or> index > int_of_size_t (length formats)
                   then int_of_size_t (length formats) else index);
          formats = vector_insert formats index format;
          r = write_int (Cameras_sep @ to_string_nat (size_t_add cameraIndex 1) @ Formats_sep @ ''size'')
                (int_of_size_t (length formats)) r
      in write_formats ops (to_string_nat (size_t_add cameraIndex 1)) formats 0 r)"

definition cameraRemoveFormat :: "'f video_format_ops \<Rightarrow> nat \<Rightarrow> int \<Rightarrow> reg \<Rightarrow> reg" where
  "cameraRemoveFormat ops cameraIndex index r =
     (let formats = cameraFormats ops cameraIndex r
      in if index < 0 \<or> index \<ge> int_of_size_t (length formats) then r
         else
           (let formats = vector_erase formats index;
                r = write_int (Cameras_sep @ to_string_nat (size_t_add cameraIndex 1) @ Formats_sep @ ''size'')
                      (int_of_size_t (length formats)) r
            in write_formats ops (to_string_nat cameraIndex) formats 0 r))"

function removeCamera_loop :: "nat \<Rightarrow> nat \<Rightarrow> reg \<Rightarrow> reg" where
  "removeCamera_loop i nCameras r =
     (if i < nCameras then
        removeCamera_loop (i + 1) nCameras
          (move (Cameras_sep @ to_string_nat (i + 1)) (Cameras_sep @ to_string_nat i) r)
      else r)"
  by pat_completeness auto
termination
  by (relation "measure (\<lambda>(i, nCameras, r). nCameras - i)") auto

declare removeCamera_loop.simps [simp del]

text \<open>\<^verbatim>\<open>removeCamera\<close> passes an empty format list to \<^verbatim>\<open>cameraSetFormats\<close>; the
  parameter \<open>ops\<close> only fixes the type of that list.\<close>

definition removeCamera :: "'f video_format_ops \<Rightarrow> string \<Rightarrow> reg \<Rightarrow> reg" where
  "removeCamera ops path r =
     (let cameraIndex = cameraFromPath path r
      in if cameraIndex < 0 then r
         else
           (let r = cameraSetFormats ops (size_t_of_int cameraIndex) [] r;
                nCameras = camerasCount r;
                r = deleteKey (Cameras_sep @ to_string_int (int_add cameraIndex 1) @ [BSL]) r;
                r = removeCamera_loop (size_t_of_int (int_add cameraIndex 1)) nCameras r
            in if nCameras > 1 then write_int Cameras_size (int_of_size_t (nCameras - 1)) r
               else deleteKey Cameras_sep r))"

section \<open>What a key addresses\<close>

text \<open>
  Every key goes through \<^verbatim>\<open>splitSubKey\<close> and the two C strings then go to the backend:
  \<open>loc key\<close> is the container path and the value name the backend sees. \<open>reg_root\<close> is
  the container path of \<^verbatim>\<open>REG_PREFIX\<close>; \<open>val_at\<close> is the value stored under a name in a
  container; a \<open>segment\<close> is a string that is one non-empty path component.
\<close>

definition reg_root :: path where
  "reg_root = [''SOFTWARE'', ''Webcamoid'', ''VirtualCamera'']"

definition loc :: "string \<Rightarrow> path \<times> string" where
  "loc key = (let (subKey, val) = splitSubKey key ([], []) in (key_path (c_str subKey), c_str val))"

definition val_at :: "reg \<Rightarrow> path \<Rightarrow> string \<Rightarrow> regval option" where
  "val_at r p name = (case map_of (keys r) p of None \<Rightarrow> None | Some c \<Rightarrow> map_of c name)"

definition segment :: "string \<Rightarrow> bool" where
  "segment s = (s \<noteq> [] \<and> BSL \<notin> set s \<and> NUL \<notin> set s)"

text \<open>What \<^verbatim>\<open>readInt\<close> and \<^verbatim>\<open>readString\<close>, called without a default, return for a
  value of an available container.\<close>

definition int_at :: "reg \<Rightarrow> path \<Rightarrow> string \<Rightarrow> int" where
  "int_at r p name = (case val_at r p name of Some (REG_DWORD w) \<Rightarrow> sint w | _ \<Rightarrow> 0)"

definition string_at :: "reg \<Rightarrow> path \<Rightarrow> string \<Rightarrow> string" where
  "string_at r p name =
     (case val_at r p name of
        Some (REG_SZ s) \<Rightarrow> if length s < MAX_PATH then c_str s else []
      | _ \<Rightarrow> [])"

text \<open>A stored format entry holds a format when its four values are the ones the
  write loop writes for that format.\<close>

definition entry_holds :: "'f video_format_ops \<Rightarrow> reg \<Rightarrow> string \<Rightarrow> nat \<Rightarrow> 'f \<Rightarrow> bool" where
  "entry_holds ops r camera k f =
     (let p = reg_root @ [''Cameras'', camera, ''Formats'', to_string_nat k] in
      val_at r p ''format'' = Some (REG_SZ (vf_format ops f)) \<and>
      val_at r p ''width'' = Some (REG_DWORD (word_of_int (vf_width ops f))) \<and>
      val_at r p ''height'' = Some (REG_DWORD (word_of_int (vf_height ops f))) \<and>
      val_at r p ''fps'' = Some (REG_SZ (vf_fps ops f)))"

text \<open>The part of the table at and beneath a container.\<close>

definition subtree :: "reg \<Rightarrow> path \<Rightarrow> (path \<times> container) list" where
  "subtree r p = filter (\<lambda>(q, c). prefix p q) (keys r)"

section \<open>Example instances\<close>

text \<open>
  An instance of each parameter and three stores, to run the model on: the device prefix
  with the identity as identifier derivation; a format that is the tuple of its four
  stored values, valid when width and height are positive; the empty store; a store of
  three cameras, the first with a valid and an invalid format entry, the second with two
  valid ones; and a store of one camera whose \<^verbatim>\<open>Formats\<close> container is unavailable.
\<close>

definition example_platform :: "string platform" where
  "example_platform =
     \<lparr>DSHOW_PLUGIN_DEVICE_PREFIX = ''AkVCamVideoDevice'', createClsidFromStr = (\<lambda>s. s)\<rparr>"

definition tuple_ops :: "(string \<times> int \<times> int \<times> string) video_format_ops" where
  "tuple_ops =
     \<lparr>vf_format = (\<lambda>(f, w, h, fps). f),
      vf_width = (\<lambda>(f, w, h, fps). w),
      vf_height = (\<lambda>(f, w, h, fps). h),
      vf_fps = (\<lambda>(f, w, h, fps). fps),
      vf_make = (\<lambda>f w h fps. (f, w, h, fps)),
      vf_bool = (\<lambda>(f, w, h, fps). 0 < w \<and> 0 < h)\<rparr>"

definition empty_store :: reg where
  "empty_store = \<lparr>keys = [], unavailable = []\<rparr>"

definition example_keys :: "(path \<times> container) list" where
  "example_keys =
     [([''SOFTWARE''], []),
      ([''SOFTWARE'', ''Webcamoid''], []),
      (reg_root, []),
      (reg_root @ [''Cameras''], [(''size'', REG_DWORD 3)]),
      (reg_root @ [''Cameras'', ''1''],
         [(''description'', REG_SZ ''Cam A''), (''path'', REG_SZ ''AkVCamVideoDevice0'')]),
      (reg_root @ [''Cameras'', ''1'', ''Formats''], [(''size'', REG_DWORD 2)]),
      (reg_root @ [''Cameras'', ''1'', ''Formats'', ''1''],
         [(''format'', REG_SZ ''RGB24''), (''width'', REG_DWORD 640),
          (''height'', REG_DWORD 480), (''fps'', REG_SZ ''30/1'')]),
      (reg_root @ [''Cameras'', ''1'', ''Formats'', ''2''],
         [(''format'', REG_SZ ''YUY2''), (''width'', REG_DWORD 0),
          (''height'', REG_DWORD 0), (''fps'', REG_SZ ''30/1'')]),
      (reg_root @ [''Cameras'', ''2''],
         [(''description'', REG_SZ ''Cam B''), (''path'', REG_SZ ''AkVCamVideoDevice2'')]),
      (reg_root @ [''Cameras'', ''2'', ''Formats''], [(''size'', REG_DWORD 2)]),
      (reg_root @ [''Cameras'', ''2'', ''Formats'', ''1''],
         [(''format'', REG_SZ ''RGB24''), (''width'', REG_DWORD 640),
          (''height'', REG_DWORD 480), (''fps'', REG_SZ ''30/1'')]),
      (reg_root @ [''Cameras'', ''2'', ''Formats'', ''2''],
         [(''format'', REG_SZ ''YUY2''), (''width'', REG_DWORD 320),
          (''height'', REG_DWORD 240), (''fps'', REG_SZ ''15/1'')]),
      (reg_root @ [''Cameras'', ''3''],
         [(''description'', REG_SZ ''Cam C''), (''path'', REG_SZ ''AkVCamVideoDevice1'')])]"

definition example_store :: reg where
  "example_store = \<lparr>keys = example_keys, unavailable = []\<rparr>"

definition locked_store :: reg where
  "locked_store =
     \<lparr>keys =
        [([''SOFTWARE''], []),
         ([''SOFTWARE'', ''Webcamoid''], []),
         (reg_root, []),
         (reg_root @ [''Cameras''], [(''size'', REG_DWORD 1)]),
         (reg_root @ [''Cameras'', ''1''], [(''path'', REG_SZ ''AkVCamVideoDevice0'')]),
         (reg_root @ [''Cameras'', ''1'', ''Formats''], [(''size'', REG_DWORD 0)])],
      unavailable = [reg_root @ [''Cameras'', ''1'', ''Formats'']]\<rparr>"

section \<open>Claims about the key syntax\<close>

lemma rfind_None: "rfind s c = None \<longleftrightarrow> c \<notin> set s"
  by (induction s) (auto split: option.splits)

lemma rfind_last: "c \<notin> set b \<Longrightarrow> rfind (a @ c # b) c = Some (length a)"
  by (induction a) (auto simp: rfind_None split: option.splits)

lemma splitSubKey_plain: "BSL \<notin> set key \<Longrightarrow> splitSubKey key out = (REG_PREFIX, key)"
  using rfind_None[of key BSL] by (simp add: splitSubKey_def)

lemma splitSubKey_sep:
  "BSL \<notin> set b \<Longrightarrow>
   splitSubKey (a @ BSL # b) out = (REG_PREFIX @ BSL # a, if b = [] then snd out else b)"
  by (simp add: splitSubKey_def rfind_last)

text \<open>
  Claim C8. For every key, \<^verbatim>\<open>splitSubKey\<close>, called as all its callers call it (on two
  freshly constructed, empty strings), produces: when the key holds no backslash, the
  fixed root prefix as container and the whole key as leaf; otherwise the root, a
  backslash and everything before the last backslash as container, and everything after
  the last backslash as leaf, which is empty when the key ends with the backslash.
\<close>

theorem splitSubKey_contract:
  "(BSL \<notin> set key \<longrightarrow> splitSubKey key ([], []) = (REG_PREFIX, key)) \<and>
   (BSL \<notin> set b \<longrightarrow>
      splitSubKey (a @ BSL # b) ([], []) = (REG_PREFIX @ BSL # a, b)) \<and>
   splitSubKey (a @ [BSL]) ([], []) = (REG_PREFIX @ BSL # a, [])"
  by (auto simp: splitSubKey_plain splitSubKey_sep)

theorem splitSubKey_contract_witness:
  "splitSubKey ''picture'' ([], []) = (REG_PREFIX, ''picture'') \<and>
   splitSubKey (''Cameras'' @ BSL # ''size'') ([], []) = (REG_PREFIX @ BSL # ''Cameras'', ''size'') \<and>
   splitSubKey (''Cameras'' @ [BSL]) ([], []) = (REG_PREFIX @ BSL # ''Cameras'', [])"
  using splitSubKey_contract [where key = "''picture''" and a = "''Cameras''" and b = "''size''"]
  by simp

section \<open>Strings, paths and key locations\<close>

lemma c_str_id: "NUL \<notin> set s \<Longrightarrow> c_str s = s"
  by (auto simp: c_str_def takeWhile_eq_all_conv)

lemma c_str_append: "NUL \<notin> set a \<Longrightarrow> c_str (a @ b) = a @ c_str b"
  by (induction a) (auto simp: c_str_def)

lemma digit_char_cases:
  "d < 10 \<Longrightarrow> d = 0 \<or> d = 1 \<or> d = 2 \<or> d = 3 \<or> d = 4 \<or> d = 5 \<or> d = 6 \<or> d = 7 \<or> d = 8 \<or> d = (9::nat)"
  by arith

lemma digit_char_in: "d < 10 \<Longrightarrow> digit_char d \<in> set ''0123456789''"
  using digit_char_cases[of d] by (auto simp: digit_char_def)

lemma digit_char_inj: "d < 10 \<Longrightarrow> e < 10 \<Longrightarrow> digit_char d = digit_char e \<Longrightarrow> d = e"
  using digit_char_cases[of d] digit_char_cases[of e] by (auto simp: digit_char_def)

lemma to_string_nat_digits: "set (to_string_nat n) \<subseteq> set ''0123456789''"
proof (induction n rule: to_string_nat.induct)
  case (1 n)
  show ?case
  proof (cases "n < 10")
    case True
    then show ?thesis using digit_char_in[of n] by (subst to_string_nat.simps) simp
  next
    case False
    have "n mod 10 < 10" by simp
    then have "digit_char (n mod 10) \<in> set ''0123456789''" by (rule digit_char_in)
    with False 1 show ?thesis by (subst to_string_nat.simps) simp
  qed
qed

lemma to_string_nat_nonempty: "to_string_nat n \<noteq> []"
  by (subst to_string_nat.simps) simp

lemma to_string_nat_inj: "to_string_nat n = to_string_nat m \<Longrightarrow> n = m"
proof (induction n arbitrary: m rule: to_string_nat.induct)
  case (1 n)
  show ?case
  proof (cases "n < 10")
    case True
    note n = this
    show ?thesis
    proof (cases "m < 10")
      case True
      with n 1(2) show ?thesis
        by (simp add: to_string_nat.simps[of n] to_string_nat.simps[of m] digit_char_inj)
    next
      case False
      with n 1(2) to_string_nat_nonempty[of "m div 10"] show ?thesis
        by (simp add: to_string_nat.simps[of n] to_string_nat.simps[of m])
    qed
  next
    case False
    note n = this
    show ?thesis
    proof (cases "m < 10")
      case True
      with n 1(2) to_string_nat_nonempty[of "n div 10"] show ?thesis
        by (simp add: to_string_nat.simps[of n] to_string_nat.simps[of m])
    next
      case False
      with n 1(2) have eq: "to_string_nat (n div 10) = to_string_nat (m div 10)"
        and d: "digit_char (n mod 10) = digit_char (m mod 10)"
        by (simp_all add: to_string_nat.simps[of n] to_string_nat.simps[of m])
      from 1(1)[OF n eq] have "n div 10 = m div 10" .
      moreover from d have "n mod 10 = m mod 10" by (intro digit_char_inj) simp_all
      ultimately show ?thesis by (metis div_mult_mod_eq)
    qed
  qed
qed

lemma segment_to_string_nat: "segment (to_string_nat n)"
  using to_string_nat_digits[of n] to_string_nat_nonempty[of n]
  by (auto simp: segment_def)

lemma segment_to_string_int: "segment (to_string_int i)"
  using segment_to_string_nat by (auto simp: to_string_int_def segment_def)

lemma components_append: "BSL \<notin> set a \<Longrightarrow> components cur (a @ rest) = components (cur @ a) rest"
  by (induction a arbitrary: cur) auto

lemma key_path_BSL: "key_path (BSL # rest) = key_path rest"
  by (simp add: key_path_def)

lemma key_path_Nil: "key_path [] = []"
  by (simp add: key_path_def)

lemma key_path_segment: "segment a \<Longrightarrow> key_path (a @ BSL # rest) = a # key_path rest"
  using components_append[of a "[]" "BSL # rest"] by (simp add: key_path_def segment_def)

lemma key_path_last: "segment a \<Longrightarrow> key_path a = [a]"
  using components_append[of a "[]" "[]"] by (simp add: key_path_def segment_def)

lemma key_path_REG_PREFIX: "key_path (REG_PREFIX @ s) = reg_root @ key_path s"
proof -
  have 1: "segment ''SOFTWARE''" and 2: "segment ''Webcamoid''" and 3: "segment ''VirtualCamera''"
    by (simp_all add: segment_def)
  have "key_path (''SOFTWARE'' @ BSL # ''Webcamoid'' @ BSL # ''VirtualCamera'' @ BSL # s)
        = ''SOFTWARE'' # ''Webcamoid'' # ''VirtualCamera'' # key_path s"
    by (simp only: key_path_segment[OF 1] key_path_segment[OF 2] key_path_segment[OF 3])
  then show ?thesis by (simp add: REG_PREFIX_def reg_root_def)
qed

lemma loc_sep:
  assumes "NUL \<notin> set a" "NUL \<notin> set b" "BSL \<notin> set b"
  shows "loc (a @ BSL # b) = (reg_root @ key_path a, b)"
proof -
  have "NUL \<notin> set REG_PREFIX" by (simp add: REG_PREFIX_def)
  then have "c_str (REG_PREFIX @ BSL # a) = REG_PREFIX @ BSL # a"
    using assms by (intro c_str_id) simp
  then show ?thesis using assms
    by (simp add: loc_def splitSubKey_sep key_path_REG_PREFIX key_path_BSL c_str_id)
qed

lemma loc_plain:
  assumes "NUL \<notin> set key" "BSL \<notin> set key"
  shows "loc key = (reg_root, key)"
proof -
  have "NUL \<notin> set REG_PREFIX" by (simp add: REG_PREFIX_def)
  then have "c_str REG_PREFIX = REG_PREFIX" by (rule c_str_id)
  moreover have "key_path REG_PREFIX = reg_root"
    using key_path_REG_PREFIX[of "[]"] by (simp add: key_path_Nil)
  ultimately show ?thesis using assms
    by (simp add: loc_def splitSubKey_plain c_str_id)
qed

lemma loc_root: "prefix reg_root (fst (loc key))"
proof -
  have n: "NUL \<notin> set REG_PREFIX" by (simp add: REG_PREFIX_def)
  obtain x where "fst (splitSubKey key ([], [])) = REG_PREFIX @ x"
    by (cases "rfind key BSL") (auto simp: splitSubKey_def)
  then show ?thesis
    by (simp add: loc_def case_prod_beta c_str_append[OF n] key_path_REG_PREFIX)
qed

section \<open>Reading and writing through the backend\<close>

lemma reg_root_nonempty: "reg_root \<noteq> []"
  by (simp add: reg_root_def)

lemma loc_nonempty: "fst (loc key) \<noteq> []"
  using loc_root[of key] reg_root_nonempty by auto

lemma readValue_loc:
  "readValue key flags sz r =
     (if fst (loc key) \<in> set (unavailable r) \<or> map_of (keys r) (fst (loc key)) = None then None
      else RegGetValueA r (fst (loc key)) (snd (loc key)) flags sz)"
  by (simp add: readValue_def loc_def RegOpenKeyExA_def case_prod_beta Let_def)

lemma readInt_val_at:
  "readInt key d r =
     (if fst (loc key) \<in> set (unavailable r) then d
      else case val_at r (fst (loc key)) (snd (loc key)) of
             Some (REG_DWORD w) \<Rightarrow> sint w
           | _ \<Rightarrow> d)"
  by (auto simp: readInt_def readValue_loc RegGetValueA_def val_at_def
           split: option.splits regval.splits)

lemma readString_val_at:
  "readString key d r =
     (if fst (loc key) \<in> set (unavailable r) then d
      else case val_at r (fst (loc key)) (snd (loc key)) of
             Some (REG_SZ s) \<Rightarrow> if length s < MAX_PATH then c_str s else d
           | _ \<Rightarrow> d)"
  by (auto simp: readString_def readValue_loc RegGetValueA_def val_at_def
           split: option.splits regval.splits)

lemma map_of_ensure_key:
  "map_of (ensure_key a ks) q = (if q = a \<and> map_of ks q = None then Some [] else map_of ks q)"
  by (auto simp: ensure_key_def map_add_def split: option.splits)

lemma map_of_fold_ensure:
  "map_of (fold ensure_key qs ks) q =
     (if q \<in> set qs \<and> map_of ks q = None then Some [] else map_of ks q)"
  by (induction qs arbitrary: ks) (auto simp: map_of_ensure_key)

lemma set_tl_prefixes: "set (tl (prefixes p)) = {q. prefix q p \<and> q \<noteq> []}"
proof -
  have "prefixes p = [] # tl (prefixes p)" by (cases p) simp_all
  moreover have "distinct (prefixes p)" by (rule distinct_prefixes)
  ultimately have "[] \<notin> set (tl (prefixes p))"
    by (metis distinct.simps(2))
  moreover have "set (prefixes p) = insert [] (set (tl (prefixes p)))"
    using \<open>prefixes p = [] # tl (prefixes p)\<close> by (metis list.simps(15))
  ultimately show ?thesis using in_set_prefixes[of _ p] by auto
qed

lemma map_of_create_path:
  "map_of (create_path p ks) q =
     (if q \<noteq> [] \<and> prefix q p \<and> map_of ks q = None then Some [] else map_of ks q)"
  by (simp add: create_path_def map_of_fold_ensure set_tl_prefixes)

lemma unavailable_setValue [simp]: "unavailable (setValue key v r) = unavailable r"
  by (simp add: setValue_def RegCreateKeyExA_def RegSetValueExA_def Let_def case_prod_beta
           split: option.splits)

lemma map_of_setValue:
  "map_of (keys (setValue key v r)) q =
     (if fst (loc key) \<in> set (unavailable r) then map_of (keys r) q
      else if q = fst (loc key) then
        Some (AList.update (snd (loc key)) v
               (case map_of (keys r) q of None \<Rightarrow> [] | Some c \<Rightarrow> c))
      else if q \<noteq> [] \<and> prefix q (fst (loc key)) \<and> map_of (keys r) q = None then Some []
      else map_of (keys r) q)"
  using loc_nonempty[of key]
  by (auto simp: setValue_def RegCreateKeyExA_def RegSetValueExA_def Let_def case_prod_beta loc_def
        map_of_create_path update_conv' split: option.splits)

lemma val_at_setValue:
  "val_at (setValue key v r) p name =
     (if fst (loc key) \<notin> set (unavailable r) \<and> p = fst (loc key) \<and> name = snd (loc key)
      then Some v else val_at r p name)"
  by (auto simp: val_at_def map_of_setValue update_conv' split: option.splits)

lemma map_of_filter_fst:
  "map_of (filter (\<lambda>(q, c). P q) xs) k = (if P k then map_of xs k else None)"
  by (induction xs) auto

lemma unavailable_deleteTree [simp]: "unavailable (deleteTree r s) = unavailable r"
  by (simp add: deleteTree_def Let_def)

lemma map_of_deleteTree:
  "map_of (keys (deleteTree r s)) q =
     (if key_path s \<notin> set (unavailable r) \<and> prefix (key_path s) q then None
      else map_of (keys r) q)"
  by (simp add: deleteTree_def Let_def map_of_filter_fst)

lemma val_at_deleteTree:
  "val_at (deleteTree r s) q name =
     (if key_path s \<notin> set (unavailable r) \<and> prefix (key_path s) q then None
      else val_at r q name)"
  by (simp add: val_at_def map_of_deleteTree)

lemma unavailable_RegDeleteValueA [simp]: "unavailable (RegDeleteValueA r h name) = unavailable r"
  by (simp add: RegDeleteValueA_def split: option.splits)

lemma val_at_RegDeleteValueA:
  "val_at (RegDeleteValueA r h name) q nm =
     (if q = h \<and> nm = name then None else val_at r q nm)"
  by (auto simp: val_at_def RegDeleteValueA_def update_conv' delete_conv' split: option.splits)

lemma unavailable_deleteKey [simp]: "unavailable (deleteKey key r) = unavailable r"
  by (simp add: deleteKey_def case_prod_beta Let_def split: option.splits)

lemma deleteKey_tree:
  assumes "NUL \<notin> set a"
  shows "deleteKey (a @ [BSL]) r = deleteTree r (REG_PREFIX @ BSL # a)"
proof -
  have "NUL \<notin> set REG_PREFIX" by (simp add: REG_PREFIX_def)
  then have "c_str (REG_PREFIX @ BSL # a) = REG_PREFIX @ BSL # a"
    using assms by (intro c_str_id) simp
  then show ?thesis
    using splitSubKey_sep[of "[]" a "([], [])"] by (simp add: deleteKey_def)
qed

lemma val_at_deleteKey_tree:
  assumes "NUL \<notin> set a"
  shows "val_at (deleteKey (a @ [BSL]) r) q name =
     (if reg_root @ key_path a \<notin> set (unavailable r) \<and> prefix (reg_root @ key_path a) q then None
      else val_at r q name)"
  by (simp add: deleteKey_tree[OF assms] val_at_deleteTree key_path_REG_PREFIX key_path_BSL)

lemma val_at_deleteKey_value:
  assumes "NUL \<notin> set a" "segment b"
  shows "val_at (deleteKey (a @ BSL # b) r) q name =
     (if reg_root @ key_path a \<notin> set (unavailable r) \<and> q = reg_root @ key_path a \<and> name = b
      then None else val_at r q name)"
proof -
  have "NUL \<notin> set REG_PREFIX" by (simp add: REG_PREFIX_def)
  then have c: "c_str (REG_PREFIX @ BSL # a) = REG_PREFIX @ BSL # a"
    using assms by (intro c_str_id) simp
  have s: "splitSubKey (a @ BSL # b) ([], []) = (REG_PREFIX @ BSL # a, b)"
    using assms splitSubKey_sep[of b a "([], [])"] by (simp add: segment_def)
  have b: "b \<noteq> []" "c_str b = b" using assms by (simp_all add: segment_def c_str_id)
  have d: "deleteKey (a @ BSL # b) r =
      (if reg_root @ key_path a \<in> set (unavailable r) \<or> map_of (keys r) (reg_root @ key_path a) = None
       then r else RegDeleteValueA r (reg_root @ key_path a) b)"
    by (simp add: deleteKey_def s c b RegOpenKeyExA_def Let_def key_path_REG_PREFIX key_path_BSL)
  show ?thesis
  proof (cases "map_of (keys r) (reg_root @ key_path a) = None")
    case True
    then have "val_at r (reg_root @ key_path a) name = None" by (simp add: val_at_def)
    with True show ?thesis by (auto simp: d)
  next
    case False
    then show ?thesis by (auto simp: d val_at_RegDeleteValueA)
  qed
qed

section \<open>Reads, the guard of addCamera and the format list\<close>

text \<open>
  Claim C6. For every key and every default, \<^verbatim>\<open>readInt\<close> and \<^verbatim>\<open>readString\<close> return the
  caller's default whenever opening the containing key fails and whenever the key opens
  but reading the value fails: an absent container and an absent value are not told
  apart.
\<close>

theorem read_default_on_failure:
  "(RegOpenKeyExA r (c_str (fst (splitSubKey key ([], [])))) = None \<longrightarrow>
      readInt key n r = n \<and> readString key s r = s) \<and>
   (\<forall>hkey. RegOpenKeyExA r (c_str (fst (splitSubKey key ([], [])))) = Some hkey \<longrightarrow>
      (RegGetValueA r hkey (c_str (snd (splitSubKey key ([], [])))) RRF_RT_REG_DWORD 4 = None \<longrightarrow>
         readInt key n r = n) \<and>
      (RegGetValueA r hkey (c_str (snd (splitSubKey key ([], [])))) RRF_RT_REG_SZ MAX_PATH = None \<longrightarrow>
         readString key s r = s))"
  by (simp add: readInt_def readString_def readValue_def case_prod_beta)

lemma loc_nonexistent: "loc ''nonexistent'' = (reg_root, ''nonexistent'')"
  by (rule loc_plain) simp_all

theorem read_default_on_failure_witness:
  "readInt ''nonexistent'' 42 \<lparr>keys = [], unavailable = []\<rparr> = 42 \<and>
   readString ''nonexistent'' ''none'' \<lparr>keys = [], unavailable = []\<rparr> = ''none'' \<and>
   readInt ''nonexistent'' 42 \<lparr>keys = [(reg_root, [])], unavailable = []\<rparr> = 42 \<and>
   readString ''nonexistent'' ''none'' \<lparr>keys = [(reg_root, [])], unavailable = []\<rparr> = ''none''"
proof -
  have k: "key_path (c_str (fst (splitSubKey ''nonexistent'' ([], [])))) = reg_root"
    using loc_nonexistent by (simp add: loc_def case_prod_beta)
  have o1: "RegOpenKeyExA \<lparr>keys = [], unavailable = []\<rparr>
              (c_str (fst (splitSubKey ''nonexistent'' ([], [])))) = None"
    by (simp add: RegOpenKeyExA_def)
  have o2: "RegOpenKeyExA \<lparr>keys = [(reg_root, [])], unavailable = []\<rparr>
              (c_str (fst (splitSubKey ''nonexistent'' ([], [])))) = Some reg_root"
    by (simp add: RegOpenKeyExA_def k)
  have g: "RegGetValueA \<lparr>keys = [(reg_root, [])], unavailable = []\<rparr> reg_root
             (c_str (snd (splitSubKey ''nonexistent'' ([], [])))) flags sz = None" for flags sz
    by (simp add: RegGetValueA_def)
  show ?thesis
    using read_default_on_failure [of "\<lparr>keys = [], unavailable = []\<rparr>" "''nonexistent''" 42 "''none''"]
      read_default_on_failure [of "\<lparr>keys = [(reg_root, [])], unavailable = []\<rparr>" "''nonexistent''" 42 "''none''"]
      o1 o2 g
    by simp
qed

lemma cameraExists_loop_finds:
  assumes "i < camerasCount r" "i < 2 ^ 32" "cameraPath i r = path" "j \<le> i"
  shows "cameraExists_loop path r (of_nat j) = Some True"
  using assms(4)
proof (induction "i - j" arbitrary: j)
  case 0
  then have "j = i" by simp
  moreover have "unat (of_nat i :: 32 word) = i"
    using assms(2) by (simp add: unat_of_nat)
  ultimately show ?case
    using assms(1,3) by (subst cameraExists_loop.simps) simp
next
  case (Suc d)
  then have lt: "j < i" and d: "d = i - Suc j" and le: "Suc j \<le> i" by simp_all
  have u: "unat (of_nat j :: 32 word) = j"
    using assms(2) lt by (simp add: unat_of_nat)
  have next_i: "(of_nat j + 1 :: 32 word) = of_nat (Suc j)" by simp
  have "cameraExists_loop path r (of_nat (Suc j)) = Some True"
    using Suc(1)[OF d le] .
  then show ?case
    using assms(1) lt by (subst cameraExists_loop.simps) (simp add: u next_i del: of_nat_Suc)
qed

text \<open>
  Claim C3. For every non-empty path that is the path of a registered camera (of some
  index below the count, an index the \<^verbatim>\<open>DWORD\<close> counter of the guard's loop reaches),
  \<^verbatim>\<open>addCamera\<close> returns the empty string and the store it leaves is the store it found.
\<close>

theorem addCamera_registered_path:
  assumes "path \<noteq> []" and "i < camerasCount r" and "i < 2 ^ 32" and "cameraPath i r = path"
  shows "addCamera pl ops path description formats r = Some ([], r)"
proof -
  have "cameraExists path r = Some True"
    using cameraExists_loop_finds[OF assms(2,3,4), of 0] by (simp add: cameraExists_def)
  with assms(1) show ?thesis by (simp add: addCamera_def)
qed

lemma cameraFormats_loop_eq:
  "cameraFormats_loop ops ci r i acc =
     acc @ filter (vf_bool ops) (map (\<lambda>k. cameraFormat ops ci k r) [i..<formatsCount ci r])"
proof (induction ops ci r i acc rule: cameraFormats_loop.induct)
  case (1 ops ci r i acc)
  show ?case
  proof (cases "i < formatsCount ci r")
    case True
    then have u: "[i..<formatsCount ci r] = i # [Suc i..<formatsCount ci r]"
      by (simp add: upt_conv_Cons)
    show ?thesis
      using True 1[OF True refl]
      by (subst cameraFormats_loop.simps) (simp add: u Let_def)
  next
    case False
    then show ?thesis by (subst cameraFormats_loop.simps) simp
  qed
qed

lemma cameraFormats_eq:
  "cameraFormats ops ci r =
     filter (vf_bool ops) (map (\<lambda>k. cameraFormat ops ci k r) [0..<formatsCount ci r])"
  by (simp add: cameraFormats_def cameraFormats_loop_eq)

text \<open>
  Claim C10. Every format in the list \<^verbatim>\<open>cameraFormats\<close> returns converts to \<^verbatim>\<open>true\<close>, and
  the list is shorter than \<^verbatim>\<open>formatsCount\<close> by the number of stored entries that read
  back as invalid: each of them is skipped.
\<close>

theorem cameraFormats_only_valid:
  "(\<forall>f \<in> set (cameraFormats ops cameraIndex r). vf_bool ops f) \<and>
   length (cameraFormats ops cameraIndex r)
     + length (filter (\<lambda>k. \<not> vf_bool ops (cameraFormat ops cameraIndex k r))
                 [0..<formatsCount cameraIndex r])
     = formatsCount cameraIndex r"
proof -
  have "length (filter (vf_bool ops) (map (\<lambda>k. cameraFormat ops cameraIndex k r) [0..<formatsCount cameraIndex r]))
      = length (filter (\<lambda>k. vf_bool ops (cameraFormat ops cameraIndex k r)) [0..<formatsCount cameraIndex r])"
    by (simp add: filter_map comp_def)
  then show ?thesis
    using sum_length_filter_compl[of "\<lambda>k. vf_bool ops (cameraFormat ops cameraIndex k r)" "[0..<formatsCount cameraIndex r]"]
    by (simp add: cameraFormats_eq)
qed

section \<open>The keys of the schema\<close>

lemma segment_literals:
  "segment ''Cameras''" "segment ''Formats''" "segment ''size''" "segment ''path''"
  "segment ''description''" "segment ''format''" "segment ''width''" "segment ''height''"
  "segment ''fps''"
  by (simp_all add: segment_def)

lemma segmentD: "segment s \<Longrightarrow> NUL \<notin> set s \<and> BSL \<notin> set s \<and> s \<noteq> []"
  by (simp add: segment_def)

lemma loc_Cameras_size: "loc Cameras_size = (reg_root @ [''Cameras''], ''size'')"
  using loc_sep[of "''Cameras''" "''size''"] key_path_last[OF segment_literals(1)]
  by (simp add: Cameras_size_def)

lemma loc_Cameras_sep: "loc Cameras_sep = (reg_root @ [''Cameras''], [])"
  using loc_sep[of "''Cameras''" "[]"] key_path_last[OF segment_literals(1)]
  by (simp add: Cameras_sep_def)

lemma loc_camera_field:
  assumes "segment cam" "segment name"
  shows "loc (Cameras_sep @ cam @ BSL # name) = (reg_root @ [''Cameras'', cam], name)"
proof -
  have "key_path (''Cameras'' @ BSL # cam) = [''Cameras'', cam]"
    by (simp only: key_path_segment[OF segment_literals(1)] key_path_last[OF assms(1)])
  then show ?thesis
    using loc_sep[of "''Cameras'' @ BSL # cam" name] segmentD[OF assms(1)] segmentD[OF assms(2)]
    by (simp add: Cameras_sep_def)
qed

lemma loc_Formats_size:
  assumes "segment cam"
  shows "loc (Cameras_sep @ cam @ Formats_sep @ ''size'') = (reg_root @ [''Cameras'', cam, ''Formats''], ''size'')"
proof -
  have "key_path (''Cameras'' @ BSL # cam @ BSL # ''Formats'') = [''Cameras'', cam, ''Formats'']"
    by (simp only: key_path_segment[OF segment_literals(1)] key_path_segment[OF assms]
          key_path_last[OF segment_literals(2)])
  then show ?thesis
    using loc_sep[of "''Cameras'' @ BSL # cam @ BSL # ''Formats''" "''size''"] segmentD[OF assms]
    by (simp add: Cameras_sep_def Formats_sep_def)
qed

lemma loc_format_field:
  assumes "segment cam" "segment idx" "segment name"
  shows "loc (Cameras_sep @ cam @ Formats_sep @ idx @ BSL # name)
         = (reg_root @ [''Cameras'', cam, ''Formats'', idx], name)"
proof -
  have "key_path (''Cameras'' @ BSL # cam @ BSL # ''Formats'' @ BSL # idx)
        = [''Cameras'', cam, ''Formats'', idx]"
    by (simp only: key_path_segment[OF segment_literals(1)] key_path_segment[OF assms(1)]
          key_path_segment[OF segment_literals(2)] key_path_last[OF assms(2)])
  then show ?thesis
    using loc_sep[of "''Cameras'' @ BSL # cam @ BSL # ''Formats'' @ BSL # idx" name]
      segmentD[OF assms(1)] segmentD[OF assms(2)] segmentD[OF assms(3)]
    by (simp add: Cameras_sep_def Formats_sep_def)
qed

lemma loc_Formats_sep:
  assumes "segment cam"
  shows "loc (Cameras_sep @ cam @ Formats_sep) = (reg_root @ [''Cameras'', cam, ''Formats''], [])"
proof -
  have "key_path (''Cameras'' @ BSL # cam @ BSL # ''Formats'') = [''Cameras'', cam, ''Formats'']"
    by (simp only: key_path_segment[OF segment_literals(1)] key_path_segment[OF assms]
          key_path_last[OF segment_literals(2)])
  then show ?thesis
    using loc_sep[of "''Cameras'' @ BSL # cam @ BSL # ''Formats''" "[]"] segmentD[OF assms]
    by (simp add: Cameras_sep_def Formats_sep_def)
qed

lemma readInt_int_at:
  "unavailable r = [] \<Longrightarrow> readInt key 0 r = int_at r (fst (loc key)) (snd (loc key))"
  by (simp add: readInt_val_at int_at_def split: option.splits regval.splits)

lemma readString_string_at:
  "unavailable r = [] \<Longrightarrow> readString key [] r = string_at r (fst (loc key)) (snd (loc key))"
  by (simp add: readString_val_at string_at_def split: option.splits regval.splits)

lemma camerasCount_at:
  "unavailable r = [] \<Longrightarrow> camerasCount r = size_t_of_int (int_at r (reg_root @ [''Cameras'']) ''size'')"
  by (simp add: camerasCount_def readInt_int_at loc_Cameras_size)

lemma cameraPath_at:
  "unavailable r = [] \<Longrightarrow>
   cameraPath i r = string_at r (reg_root @ [''Cameras'', to_string_nat (size_t_add i 1)]) ''path''"
  by (simp add: cameraPath_def readString_string_at
        loc_camera_field[OF segment_to_string_nat segment_literals(4)])

lemma formatsCount_at:
  "unavailable r = [] \<Longrightarrow>
   formatsCount i r =
     size_t_of_int (int_at r (reg_root @ [''Cameras'', to_string_nat (size_t_add i 1), ''Formats'']) ''size'')"
  by (simp add: formatsCount_def readInt_int_at loc_Formats_size[OF segment_to_string_nat])

lemma cameraFormat_at:
  "unavailable r = [] \<Longrightarrow>
   cameraFormat ops i k r =
     (let p = reg_root @ [''Cameras'', to_string_nat (size_t_add i 1), ''Formats'',
                          to_string_nat (size_t_add k 1)]
      in vf_make ops (string_at r p ''format'') (int_at r p ''width'') (int_at r p ''height'')
           (string_at r p ''fps''))"
  by (simp add: cameraFormat_def readInt_int_at readString_string_at Let_def
        loc_format_field[OF segment_to_string_nat segment_to_string_nat] segment_literals)

lemma to_string_small:
  "to_string_nat 0 = ''0''" "to_string_nat (Suc 0) = ''1''" "to_string_nat 2 = ''2''"
  "to_string_nat 3 = ''3''" "to_string_nat 4 = ''4''"
  by (simp_all add: to_string_nat.simps digit_char_def)

lemma size_t_add_small:
  "size_t_add 0 (Suc 0) = Suc 0" "size_t_add (Suc 0) (Suc 0) = 2" "size_t_add 2 (Suc 0) = 3"
  "size_t_add 3 (Suc 0) = 4"
  by (simp_all add: size_t_add_def)

lemma example_store_counts:
  "camerasCount example_store = 3"
  "formatsCount 0 example_store = 2"
  "formatsCount (Suc 0) example_store = 2"
  "formatsCount 2 example_store = 0"
  by (simp_all add: camerasCount_at formatsCount_at example_store_def example_keys_def int_at_def
        val_at_def size_t_of_int_def size_t_add_small to_string_small reg_root_def)

lemma example_store_paths:
  "cameraPath 0 example_store = ''AkVCamVideoDevice0''"
  "cameraPath (Suc 0) example_store = ''AkVCamVideoDevice2''"
  "cameraPath 2 example_store = ''AkVCamVideoDevice1''"
  by (simp_all add: cameraPath_at example_store_def example_keys_def string_at_def
        val_at_def size_t_add_small to_string_small reg_root_def MAX_PATH_def c_str_def)

lemma example_store_formats:
  "cameraFormat tuple_ops 0 0 example_store = (''RGB24'', 640, 480, ''30/1'')"
  "cameraFormat tuple_ops 0 (Suc 0) example_store = (''YUY2'', 0, 0, ''30/1'')"
  "cameraFormat tuple_ops (Suc 0) 0 example_store = (''RGB24'', 640, 480, ''30/1'')"
  "cameraFormat tuple_ops (Suc 0) (Suc 0) example_store = (''YUY2'', 320, 240, ''15/1'')"
  by (simp_all add: cameraFormat_at example_store_def example_keys_def string_at_def int_at_def
        val_at_def size_t_add_small to_string_small reg_root_def MAX_PATH_def c_str_def tuple_ops_def)

lemma upt_small: "[0..<2] = [0, Suc 0]" "[0..<3] = [0, Suc 0, 2]"
  by (simp_all add: upt_rec)

lemma example_store_cameraFormats:
  "cameraFormats tuple_ops 0 example_store = [(''RGB24'', 640, 480, ''30/1'')]"
  "cameraFormats tuple_ops (Suc 0) example_store
     = [(''RGB24'', 640, 480, ''30/1''), (''YUY2'', 320, 240, ''15/1'')]"
  by (simp_all add: cameraFormats_eq example_store_counts upt_small example_store_formats)
     (simp_all add: tuple_ops_def)

theorem addCamera_registered_path_witness:
  "addCamera example_platform tuple_ops ''AkVCamVideoDevice2'' ''Cam D''
     [(''RGB24'', 640, 480, ''30/1'')] example_store = Some ([], example_store)"
proof -
  have "(Suc 0) < camerasCount example_store" by (simp add: example_store_counts)
  moreover have "(Suc 0) < (2::nat) ^ 32" by simp
  moreover have "''AkVCamVideoDevice2'' \<noteq> []" by simp
  ultimately show ?thesis
    using addCamera_registered_path [of "''AkVCamVideoDevice2''" "Suc 0" example_store
        example_platform tuple_ops "''Cam D''" "[(''RGB24'', 640, 480, ''30/1'')]"]
      example_store_paths(2)
    by simp
qed

theorem cameraFormats_only_valid_witness:
  "cameraFormats tuple_ops 0 example_store = [(''RGB24'', 640, 480, ''30/1'')] \<and>
   vf_bool tuple_ops (''RGB24'', 640, 480, ''30/1'') \<and>
   length (cameraFormats tuple_ops 0 example_store) = 1 \<and>
   formatsCount 0 example_store = 2"
  using cameraFormats_only_valid [of tuple_ops 0 example_store]
  by (simp add: example_store_cameraFormats example_store_counts)

lemma int_of_size_t_small: "n < 2 ^ 31 \<Longrightarrow> int_of_size_t n = int n"
  by (simp add: int_of_size_t_def signed_take_bit_int_eq_self)

lemma list_cameraPaths_eq:
  "list_cameraPaths r i acc = acc @ map (\<lambda>k. cameraPath k r) [i..<camerasCount r]"
proof (induction r i acc rule: list_cameraPaths.induct)
  case (1 r i acc)
  show ?case
  proof (cases "i < camerasCount r")
    case True
    then have u: "[i..<camerasCount r] = i # [Suc i..<camerasCount r]"
      by (simp add: upt_conv_Cons)
    show ?thesis
      using True 1[OF True] by (subst list_cameraPaths.simps) (simp add: u)
  next
    case False
    then show ?thesis by (subst list_cameraPaths.simps) simp
  qed
qed

lemma probe_paths_eq:
  "0 \<le> i \<Longrightarrow>
   probe_paths pl cameraPaths cameraClsids i =
     (case find (\<lambda>path. path \<notin> set cameraPaths \<and> createClsidFromStr pl path \<notin> set cameraClsids)
             (map (\<lambda>k. DSHOW_PLUGIN_DEVICE_PREFIX pl @ to_string_int (int k)) [nat i..<64]) of
        Some path \<Rightarrow> path
      | None \<Rightarrow> [])"
proof (induction pl cameraPaths cameraClsids i rule: probe_paths.induct)
  case (1 pl cameraPaths cameraClsids i)
  show ?case
  proof (cases "i < maxId")
    case True
    with 1(2) have u: "[nat i..<64] = nat i # [nat (i + 1)..<64]"
      by (simp add: maxId_def upt_conv_Cons nat_add_distrib)
    have n: "int (nat i) = i" using 1(2) by simp
    show ?thesis
      using True 1(1)[OF True refl refl] 1(2)
      by (subst probe_paths.simps) (simp add: u n Let_def del: upt_Suc)
  next
    case False
    then have "[nat i..<64] = []" by (simp add: maxId_def)
    with False show ?thesis by (subst probe_paths.simps) simp
  qed
qed

text \<open>
  Claim C4. \<^verbatim>\<open>createDevicePath\<close> probes the candidates prefix + \<open>i\<close> for \<open>i = 0..63\<close> in
  increasing order and returns the first one that is neither a registered path nor has
  a derived identifier among the derived identifiers of the registered paths; when no
  candidate qualifies it returns the empty string.
\<close>

theorem createDevicePath_first_free:
  "createDevicePath pl r =
     (let registered = map (\<lambda>k. cameraPath k r) [0..<camerasCount r] in
      case find (\<lambda>path. path \<notin> set registered \<and>
                         createClsidFromStr pl path \<notin> createClsidFromStr pl ` set registered)
             (map (\<lambda>k. DSHOW_PLUGIN_DEVICE_PREFIX pl @ to_string_int (int k)) [0..<64]) of
        Some path \<Rightarrow> path
      | None \<Rightarrow> [])"
  using probe_paths_eq[of 0 pl]
  by (simp add: createDevicePath_def listAllCameras_def list_cameraPaths_eq Let_def image_image)


lemma to_string_int_small:
  "to_string_int 0 = ''0''" "to_string_int 1 = ''1''" "to_string_int 2 = ''2''"
  "to_string_int 3 = ''3''"
  by (simp_all add: to_string_int_def to_string_small)

lemma upt_64: "[0..<64] = 0 # Suc 0 # 2 # 3 # [4..<64]"
  by (simp add: upt_rec)

theorem createDevicePath_first_free_witness:
  "createDevicePath example_platform example_store = ''AkVCamVideoDevice3''"
  using createDevicePath_first_free [of example_platform example_store]
  by (simp add: example_store_counts upt_small example_store_paths upt_64 to_string_int_small
        example_platform_def del: upt_Suc)

section \<open>Moving a subtree\<close>

lemma filter_ensure_key:
  "\<not> P q \<Longrightarrow> filter (\<lambda>(k, c). P k) (ensure_key q ks) = filter (\<lambda>(k, c). P k) ks"
  by (simp add: ensure_key_def)

lemma filter_fold_ensure:
  "\<forall>q \<in> set qs. \<not> P q \<Longrightarrow>
   filter (\<lambda>(k, c). P k) (fold ensure_key qs ks) = filter (\<lambda>(k, c). P k) ks"
  by (induction qs arbitrary: ks) (simp_all add: filter_ensure_key)

lemma filter_create_path:
  assumes "\<not> prefix h p"
  shows "filter (\<lambda>(k, c). prefix h k) (create_path p ks) = filter (\<lambda>(k, c). prefix h k) ks"
proof -
  have "\<forall>q \<in> set (tl (prefixes p)). \<not> prefix h q"
    using assms by (auto simp: set_tl_prefixes dest: prefix_order.trans)
  then show ?thesis by (simp add: create_path_def filter_fold_ensure)
qed

lemma filter_update:
  "\<not> P k \<Longrightarrow> filter (\<lambda>(q, c). P q) (AList.update k v ks) = filter (\<lambda>(q, c). P q) ks"
  by (induction ks) auto

lemma filter_put_container:
  assumes "\<not> prefix h q"
  shows "filter (\<lambda>(k, c). prefix h k) (put_container q c ks) = filter (\<lambda>(k, c). prefix h k) ks"
  using assms by (simp add: put_container_def Let_def filter_update filter_create_path)

lemma subtree_copy_keys:
  assumes "\<forall>p \<in> set ps. \<not> prefix h (dst @ drop (length src) p)"
  shows "subtree (snd (copy_keys snap src dst ps r)) h = subtree r h"
  using assms
proof (induction ps arbitrary: r)
  case Nil
  then show ?case by simp
next
  case (Cons p ps)
  then show ?case
    by (simp add: Let_def subtree_def filter_put_container)
qed

lemma incomparable_target:
  assumes "\<not> prefix h h'" "\<not> prefix h' h"
  shows "\<not> prefix h (h' @ s)"
proof
  assume "prefix h (h' @ s)"
  moreover have "prefix h' (h' @ s)" by simp
  ultimately show False using assms prefix_same_cases by blast
qed

lemma subtree_copyTree:
  assumes "\<not> prefix h h'" "\<not> prefix h' h"
  shows "subtree (snd (copyTree r h h')) h = subtree r h"
  unfolding copyTree_def
  by (rule subtree_copy_keys) (simp add: incomparable_target[OF assms])

lemma subtree_RegCreateKeyExA:
  assumes "RegCreateKeyExA r s = (Some h', r1)" "\<not> prefix h h'"
  shows "subtree r1 h = subtree r h"
  using assms
  by (auto simp: RegCreateKeyExA_def Let_def subtree_def filter_create_path split: if_splits)

lemma move_path:
  assumes "NUL \<notin> set key"
  shows "key_path (c_str (REG_PREFIX @ BSL # key)) = reg_root @ key_path key"
proof -
  have "NUL \<notin> set REG_PREFIX" by (simp add: REG_PREFIX_def)
  then have "c_str (REG_PREFIX @ BSL # key) = REG_PREFIX @ BSL # key"
    using assms by (intro c_str_id) simp
  then show ?thesis by (simp add: key_path_REG_PREFIX key_path_BSL)
qed

lemma key_path_camera:
  "segment cam \<Longrightarrow> key_path (Cameras_sep @ cam) = [''Cameras'', cam]"
  using key_path_segment[OF segment_literals(1), of cam] key_path_last[of cam]
  by (simp add: Cameras_sep_def)

lemma key_path_camera_sub:
  "segment cam \<Longrightarrow> segment sub \<Longrightarrow> key_path (Cameras_sep @ cam @ BSL # sub) = [''Cameras'', cam, sub]"
  using key_path_segment[OF segment_literals(1), of "cam @ BSL # sub"]
    key_path_segment[of cam sub] key_path_last[of sub]
  by (simp add: Cameras_sep_def)

lemma move_path_camera:
  assumes "segment cam"
  shows "key_path (c_str (REG_PREFIX @ BSL # Cameras_sep @ cam)) = reg_root @ [''Cameras'', cam]"
  using move_path[of "Cameras_sep @ cam"] key_path_camera[OF assms] segmentD[OF assms]
  by (simp add: Cameras_sep_def)

lemma move_path_camera_sub:
  assumes "segment cam" "segment sub"
  shows "key_path (c_str (REG_PREFIX @ BSL # Cameras_sep @ cam @ BSL # sub))
         = reg_root @ [''Cameras'', cam, sub]"
  using move_path[of "Cameras_sep @ cam @ BSL # sub"] key_path_camera_sub[OF assms]
    segmentD[OF assms(1)] segmentD[OF assms(2)]
  by (simp add: Cameras_sep_def)

lemma segment_examples: "segment ''1''" "segment ''2''" "segment ''backup''"
  by (simp_all add: segment_def)

section \<open>Writes, and the index addCamera computes\<close>

lemma unavailable_write [simp]:
  "unavailable (write_int key n r) = unavailable r"
  "unavailable (write_string key s r) = unavailable r"
  by (simp_all add: write_int_def write_string_def)

lemma val_at_write_int:
  "val_at (write_int key n r) p name =
     (if fst (loc key) \<notin> set (unavailable r) \<and> p = fst (loc key) \<and> name = snd (loc key)
      then Some (REG_DWORD (word_of_int n)) else val_at r p name)"
  by (simp add: write_int_def val_at_setValue)

lemma val_at_write_string:
  "val_at (write_string key s r) p name =
     (if fst (loc key) \<notin> set (unavailable r) \<and> p = fst (loc key) \<and> name = snd (loc key)
      then Some (REG_SZ s) else val_at r p name)"
  by (simp add: write_string_def val_at_setValue)

lemma unavailable_write_formats [simp]:
  "unavailable (write_formats ops cam formats i r) = unavailable r"
proof (induction ops cam formats i r rule: write_formats.induct)
  case (1 ops cam formats i r)
  show ?case
  proof (cases "i < length formats")
    case True
    then show ?thesis
      using 1[OF True refl refl refl refl refl refl]
      by (subst write_formats.simps) (simp add: Let_def)
  next
    case False
    then show ?thesis by (subst write_formats.simps) simp
  qed
qed

text \<open>The format loop writes only into format entries of its camera.\<close>

lemma val_at_write_formats_other:
  assumes "segment cam" "\<not> prefix (reg_root @ [''Cameras'', cam, ''Formats'']) p \<or> length p \<noteq> 7"
  shows "val_at (write_formats ops cam formats i r) p name = val_at r p name"
  using assms
proof (induction ops cam formats i r rule: write_formats.induct)
  case (1 ops cam formats i r)
  show ?case
  proof (cases "i < length formats")
    case True
    have p: "p \<noteq> reg_root @ [''Cameras'', cam, ''Formats'', to_string_nat (Suc i)]"
      using 1(3) by (auto simp: reg_root_def)
    show ?thesis
      using True 1(1)[OF True refl refl refl refl refl refl 1(2) 1(3)] p
      by (subst write_formats.simps)
         (simp add: Let_def val_at_write_int val_at_write_string
            loc_format_field[OF 1(2) segment_to_string_nat] segment_literals)
  next
    case False
    then show ?thesis by (subst write_formats.simps) simp
  qed
qed

lemma int_add_small: "- (2 ^ 31) \<le> a + b \<Longrightarrow> a + b < 2 ^ 31 \<Longrightarrow> int_add a b = a + b"
  by (simp add: int_add_def signed_take_bit_int_eq_self)

text \<open>
  \<^verbatim>\<open>addCamera\<close> computes the new index from the unnamed value of the \<^verbatim>\<open>Cameras\<close>
  container, which nothing in the store writes: in a store where that value is absent
  the index is 1 whatever the stored count, and stays so after the call.
\<close>

lemma addCamera_write_count:
  assumes "unavailable r = []" "val_at r (reg_root @ [''Cameras'']) [] = None"
  shows "camerasCount (snd (addCamera_write pl ops path description formats r)) = 1"
    and "val_at (snd (addCamera_write pl ops path description formats r)) (reg_root @ [''Cameras'']) [] = None"
    and "unavailable (snd (addCamera_write pl ops path description formats r)) = []"
proof -
  have idx: "int_add (readInt Cameras_sep 0 r) 1 = 1"
    using assms by (simp add: readInt_val_at loc_Cameras_sep int_add_def)
  have seg: "segment (to_string_int 1)" by (rule segment_to_string_int)
  have one: "sint (1 :: 32 word) = 1" by simp
  show "camerasCount (snd (addCamera_write pl ops path description formats r)) = 1"
    using assms(1)
    by (simp add: addCamera_write_def Let_def idx camerasCount_at int_at_def
          val_at_write_formats_other[OF seg] val_at_write_int val_at_write_string
          loc_Cameras_size loc_camera_field[OF seg] loc_Formats_size[OF seg] segment_literals
          size_t_of_int_def reg_root_def)
  show "val_at (snd (addCamera_write pl ops path description formats r)) (reg_root @ [''Cameras'']) [] = None"
    using assms
    by (simp add: addCamera_write_def Let_def idx
          val_at_write_formats_other[OF seg] val_at_write_int val_at_write_string
          loc_Cameras_size loc_camera_field[OF seg] loc_Formats_size[OF seg] segment_literals
          reg_root_def)
  show "unavailable (snd (addCamera_write pl ops path description formats r)) = []"
    using assms(1) by (simp add: addCamera_write_def Let_def)
qed

lemma addCamera_empty_path:
  "addCamera pl ops [] description formats r = Some (addCamera_write pl ops [] description formats r)"
  by (simp add: addCamera_def)

text \<open>
  Claim C2 says that each successful \<^verbatim>\<open>addCamera\<close> increases \<^verbatim>\<open>camerasCount()\<close> by one, so
  that two calls on an empty registry give the counts 1 and 2. The code, run on the
  empty store: both calls succeed, and the count is 1 after the first and 1 after the
  second; the second call writes its camera over the first at storage index 1.
\<close>

theorem addCamera_twice_count_one:
  "addCamera example_platform tuple_ops [] ''Cam A'' [(''RGB24'', 640, 480, ''30/1'')] empty_store
     = Some (addCamera_write example_platform tuple_ops [] ''Cam A'' [(''RGB24'', 640, 480, ''30/1'')]
               empty_store) \<and>
   camerasCount
     (snd (addCamera_write example_platform tuple_ops [] ''Cam A'' [(''RGB24'', 640, 480, ''30/1'')]
             empty_store)) = 1 \<and>
   addCamera example_platform tuple_ops [] ''Cam B'' [(''YUY2'', 320, 240, ''15/1'')]
     (snd (addCamera_write example_platform tuple_ops [] ''Cam A'' [(''RGB24'', 640, 480, ''30/1'')]
             empty_store))
     = Some (addCamera_write example_platform tuple_ops [] ''Cam B'' [(''YUY2'', 320, 240, ''15/1'')]
               (snd (addCamera_write example_platform tuple_ops [] ''Cam A''
                       [(''RGB24'', 640, 480, ''30/1'')] empty_store))) \<and>
   camerasCount
     (snd (addCamera_write example_platform tuple_ops [] ''Cam B'' [(''YUY2'', 320, 240, ''15/1'')]
             (snd (addCamera_write example_platform tuple_ops [] ''Cam A''
                     [(''RGB24'', 640, 480, ''30/1'')] empty_store)))) = 1"
proof -
  have e: "unavailable empty_store = []" "val_at empty_store (reg_root @ [''Cameras'']) [] = None"
    by (simp_all add: empty_store_def val_at_def)
  note a = addCamera_write_count[OF e, of example_platform tuple_ops "[]" "''Cam A''"
      "[(''RGB24'', 640, 480, ''30/1'')]"]
  note b = addCamera_write_count[OF a(3) a(2), of example_platform tuple_ops "[]" "''Cam B''"
      "[(''YUY2'', 320, 240, ''15/1'')]"]
  show ?thesis using a(1) b(1) by (simp add: addCamera_empty_path)
qed

section \<open>Removing a format\<close>

lemma to_string_nat_eq [simp]: "to_string_nat n = to_string_nat m \<longleftrightarrow> n = m"
  using to_string_nat_inj by auto

lemma size_t_add_1_neq: "size_t_add n 1 \<noteq> n"
proof
  assume e: "size_t_add n 1 = n"
  have "size_t_add n 1 < (2::nat) ^ 64" by (simp add: size_t_add_def)
  with e have n: "n < (2::nat) ^ 64" by simp
  show False
  proof (cases "n + 1 < 2 ^ 64")
    case True
    with e show False by (simp add: size_t_add_def)
  next
    case False
    with n have "n + 1 = 2 ^ 64" by simp
    then have "size_t_add n 1 = 0" by (simp add: size_t_add_def)
    with e \<open>n + 1 = 2 ^ 64\<close> show False by simp
  qed
qed

lemma size_t_of_int_small: "0 \<le> i \<Longrightarrow> i < 2 ^ 64 \<Longrightarrow> size_t_of_int i = nat i"
  by (simp add: size_t_of_int_def)

lemma sint_word_of_int_small:
  "- (2 ^ 31) \<le> x \<Longrightarrow> x < 2 ^ 31 \<Longrightarrow> sint (word_of_int x :: 32 word) = x"
  by (simp add: sint_sbintrunc' signed_take_bit_int_eq_self)

text \<open>
  \<^verbatim>\<open>cameraRemoveFormat\<close> writes the shortened list under the storage index
  \<^verbatim>\<open>cameraIndex\<close>, not \<^verbatim>\<open>cameraIndex + 1\<close>: no format entry of the camera it was called
  for changes.
\<close>

lemma cameraRemoveFormat_keeps_entries:
  assumes "unavailable r = []"
  shows "cameraFormat ops cameraIndex k (cameraRemoveFormat ops cameraIndex index r)
         = cameraFormat ops cameraIndex k r"
proof -
  have u: "unavailable (cameraRemoveFormat ops cameraIndex index r) = []"
    using assms by (simp add: cameraRemoveFormat_def Let_def)
  have n: "to_string_nat cameraIndex \<noteq> to_string_nat (size_t_add cameraIndex 1)"
    using size_t_add_1_neq[of cameraIndex] by simp
  have "val_at (cameraRemoveFormat ops cameraIndex index r)
          (reg_root @ [''Cameras'', to_string_nat (size_t_add cameraIndex 1), ''Formats'',
                       to_string_nat (size_t_add k 1)]) name
        = val_at r (reg_root @ [''Cameras'', to_string_nat (size_t_add cameraIndex 1), ''Formats'',
                       to_string_nat (size_t_add k 1)]) name" for name
    using assms n
    by (simp add: cameraRemoveFormat_def Let_def
          val_at_write_formats_other[OF segment_to_string_nat] val_at_write_int
          loc_Formats_size[OF segment_to_string_nat])
  then show ?thesis
    using assms u by (simp add: cameraFormat_at int_at_def string_at_def)
qed

lemma cameraRemoveFormat_count:
  assumes "unavailable r = []" "0 \<le> index" "index < int (length (cameraFormats ops cameraIndex r))"
    "length (cameraFormats ops cameraIndex r) < 2 ^ 31"
  shows "formatsCount cameraIndex (cameraRemoveFormat ops cameraIndex index r)
         = length (cameraFormats ops cameraIndex r) - 1"
proof -
  let ?L = "length (cameraFormats ops cameraIndex r)"
  have u: "unavailable (cameraRemoveFormat ops cameraIndex index r) = []"
    using assms by (simp add: cameraRemoveFormat_def Let_def)
  have len: "length (vector_erase (cameraFormats ops cameraIndex r) index) = ?L - 1"
    using assms(2,3) by (auto simp: vector_erase_def)
  have s: "sint (word_of_int (int (?L - 1)) :: 32 word) = int (?L - 1)"
    using assms(4) by (intro sint_word_of_int_small) simp_all
  have "val_at (cameraRemoveFormat ops cameraIndex index r)
          (reg_root @ [''Cameras'', to_string_nat (size_t_add cameraIndex 1), ''Formats'']) ''size''
        = Some (REG_DWORD (word_of_int (int (?L - 1))))"
    using assms
    by (simp add: cameraRemoveFormat_def Let_def len int_of_size_t_small
          val_at_write_formats_other[OF segment_to_string_nat] val_at_write_int
          loc_Formats_size[OF segment_to_string_nat] reg_root_def)
  moreover have "size_t_of_int (int (?L - 1)) = ?L - 1"
    using assms(4) by (subst size_t_of_int_small) simp_all
  ultimately show ?thesis
    using u s by (simp add: formatsCount_at int_at_def)
qed

text \<open>
  Claim C5 says that after \<^verbatim>\<open>cameraRemoveFormat\<close> the entries \<open>1..size\<close> of the camera hold
  the new format list. The code, run on the second camera of the example store (formats
  RGB24 and YUY2) with index 0: the stored size becomes 1, and the one entry the camera
  then lists is still RGB24, the format that was removed, not YUY2.
\<close>

theorem cameraRemoveFormat_stale_entries:
  "cameraFormats tuple_ops 1 example_store
     = [(''RGB24'', 640, 480, ''30/1''), (''YUY2'', 320, 240, ''15/1'')] \<and>
   formatsCount 1 (cameraRemoveFormat tuple_ops 1 0 example_store) = 1 \<and>
   cameraFormats tuple_ops 1 (cameraRemoveFormat tuple_ops 1 0 example_store)
     = [(''RGB24'', 640, 480, ''30/1'')]"
proof -
  have u: "unavailable example_store = []" by (simp add: example_store_def)
  have c: "formatsCount (Suc 0) (cameraRemoveFormat tuple_ops (Suc 0) 0 example_store) = Suc 0"
    using cameraRemoveFormat_count[OF u, of 0 tuple_ops "Suc 0"]
    by (simp add: example_store_cameraFormats)
  have "cameraFormats tuple_ops (Suc 0) (cameraRemoveFormat tuple_ops (Suc 0) 0 example_store)
     = [(''RGB24'', 640, 480, ''30/1'')]"
    by (simp add: cameraFormats_eq c cameraRemoveFormat_keeps_entries[OF u] example_store_formats)
       (simp add: tuple_ops_def)
  with c show ?thesis by (simp add: example_store_cameraFormats)
qed

section \<open>Copying a subtree and the renumbering loop\<close>

lemma val_at_put_container:
  "val_at (r\<lparr>keys := put_container q c (keys r)\<rparr>) p name =
     (if p = q then (case map_of c name of Some v \<Rightarrow> Some v | None \<Rightarrow> val_at r q name)
      else val_at r p name)"
  by (auto simp: val_at_def put_container_def Let_def update_conv' map_of_create_path merge_conv'
        map_add_def split: option.splits)

lemma copy_target_eq:
  assumes "prefix src p"
  shows "q = dst @ drop (length src) p \<longleftrightarrow> prefix dst q \<and> src @ drop (length dst) q = p"
proof
  assume "q = dst @ drop (length src) p"
  then show "prefix dst q \<and> src @ drop (length dst) q = p"
    using assms by (auto simp: prefix_def)
next
  assume a: "prefix dst q \<and> src @ drop (length dst) q = p"
  then obtain s where q: "q = dst @ s" by (auto simp: prefix_def)
  with a have "p = src @ s" by simp
  then show "q = dst @ drop (length src) p" using q by simp
qed

lemma copy_keys_available:
  "unavailable r = [] \<Longrightarrow> \<forall>p \<in> set ps. prefix src p \<Longrightarrow>
   fst (copy_keys snap src dst ps r) = ERROR_SUCCESS \<and>
   unavailable (snd (copy_keys snap src dst ps r)) = [] \<and>
   (\<forall>q name. val_at (snd (copy_keys snap src dst ps r)) q name =
          (if prefix dst q \<and> src @ drop (length dst) q \<in> set ps then
             (case (case map_of snap (src @ drop (length dst) q) of
                      None \<Rightarrow> None | Some c \<Rightarrow> map_of c name) of
                Some v \<Rightarrow> Some v
              | None \<Rightarrow> val_at r q name)
           else val_at r q name))"
proof (induction ps arbitrary: r)
  case Nil
  then show ?case by simp
next
  case (Cons p ps)
  let ?q0 = "dst @ drop (length src) p"
  let ?c = "case map_of snap p of None \<Rightarrow> [] | Some c \<Rightarrow> c"
  let ?r' = "r\<lparr>keys := put_container ?q0 ?c (keys r)\<rparr>"
  from Cons.prems have u: "unavailable ?r' = []" and ps: "\<forall>p \<in> set ps. prefix src p"
    and p: "prefix src p" by simp_all
  have step: "copy_keys snap src dst (p # ps) r = copy_keys snap src dst ps ?r'"
    using Cons.prems by (simp add: Let_def)
  note IH = Cons.IH[OF u ps]
  have t: "q = ?q0 \<longleftrightarrow> prefix dst q \<and> src @ drop (length dst) q = p" for q
    by (rule copy_target_eq[OF p])
  have "val_at (snd (copy_keys snap src dst ps ?r')) q name =
          (if prefix dst q \<and> src @ drop (length dst) q \<in> set (p # ps) then
             (case (case map_of snap (src @ drop (length dst) q) of
                      None \<Rightarrow> None | Some c \<Rightarrow> map_of c name) of
                Some v \<Rightarrow> Some v
              | None \<Rightarrow> val_at r q name)
           else val_at r q name)" for q name
    using IH t[of q] by (auto simp: val_at_put_container split: option.splits)
  with IH show ?case unfolding step by simp
qed

lemma in_keys_iff: "p \<in> fst ` set ks \<longleftrightarrow> map_of ks p \<noteq> None"
  by (metis map_of_eq_None_iff)

lemma copyTree_available:
  assumes "unavailable r = []"
  shows "fst (copyTree r src dst) = ERROR_SUCCESS"
    and "unavailable (snd (copyTree r src dst)) = []"
    and "val_at (snd (copyTree r src dst)) q name =
          (if prefix dst q then
             (case val_at r (src @ drop (length dst) q) name of
                Some v \<Rightarrow> Some v
              | None \<Rightarrow> val_at r q name)
           else val_at r q name)"
proof -
  let ?ps = "filter (prefix src) (map fst (keys r))"
  have ps: "\<forall>p \<in> set ?ps. prefix src p" by simp
  note c = copy_keys_available[OF assms ps, of "keys r" dst]
  show "fst (copyTree r src dst) = ERROR_SUCCESS"
    unfolding copyTree_def using c by blast
  show "unavailable (snd (copyTree r src dst)) = []"
    unfolding copyTree_def using c by blast
  have m: "src @ s \<in> set ?ps \<longleftrightarrow> map_of (keys r) (src @ s) \<noteq> None" for s
    using in_keys_iff[of "src @ s" "keys r"] by simp
  have "val_at (snd (copy_keys (keys r) src dst ?ps r)) q name =
          (if prefix dst q \<and> src @ drop (length dst) q \<in> set ?ps then
             (case (case map_of (keys r) (src @ drop (length dst) q) of
                      None \<Rightarrow> None | Some c \<Rightarrow> map_of c name) of
                Some v \<Rightarrow> Some v
              | None \<Rightarrow> val_at r q name)
           else val_at r q name)"
    using c by blast
  then show "val_at (snd (copyTree r src dst)) q name =
          (if prefix dst q then
             (case val_at r (src @ drop (length dst) q) name of
                Some v \<Rightarrow> Some v
              | None \<Rightarrow> val_at r q name)
           else val_at r q name)"
    unfolding copyTree_def m
    by (auto simp: val_at_def split: option.splits)
qed

lemma unavailable_RegCreateKeyExA [simp]:
  "unavailable (snd (RegCreateKeyExA r s)) = unavailable r"
  by (simp add: RegCreateKeyExA_def Let_def)

lemma val_at_RegCreateKeyExA [simp]:
  "val_at (snd (RegCreateKeyExA r s)) q name = val_at r q name"
  by (auto simp: RegCreateKeyExA_def Let_def val_at_def map_of_create_path)

lemma fst_RegCreateKeyExA:
  "unavailable r = [] \<Longrightarrow> fst (RegCreateKeyExA r s) = Some (key_path s)"
  by (simp add: RegCreateKeyExA_def Let_def)

text \<open>
  One step of the renumbering loop: \<^verbatim>\<open>move\<close> from storage index \<open>a + 1\<close> to \<open>a\<close> copies the
  values of the higher camera over the lower one; the \<^verbatim>\<open>deleteKey\<close> at its end takes the
  key for a value name of the \<^verbatim>\<open>Cameras\<close> container and leaves the source container
  in place.
\<close>

lemma move_camera:
  assumes "unavailable r = []"
    and "map_of (keys r) (reg_root @ [''Cameras'', to_string_nat (Suc a)]) \<noteq> None"
  shows "unavailable (move (Cameras_sep @ to_string_nat (Suc a)) (Cameras_sep @ to_string_nat a) r) = []"
    and "val_at (move (Cameras_sep @ to_string_nat (Suc a)) (Cameras_sep @ to_string_nat a) r) q name =
          (if q = reg_root @ [''Cameras''] \<and> name = to_string_nat (Suc a) then None
           else if prefix (reg_root @ [''Cameras'', to_string_nat a]) q then
             (case val_at r ((reg_root @ [''Cameras'', to_string_nat (Suc a)]) @ drop 5 q) name of
                Some v \<Rightarrow> Some v
              | None \<Rightarrow> val_at r q name)
           else val_at r q name)"
proof -
  let ?src = "reg_root @ [''Cameras'', to_string_nat (Suc a)]"
  let ?dst = "reg_root @ [''Cameras'', to_string_nat a]"
  let ?kf = "Cameras_sep @ to_string_nat (Suc a)"
  let ?kt = "Cameras_sep @ to_string_nat a"
  have pf: "key_path (c_str (REG_PREFIX @ BSL # ?kf)) = ?src"
    by (rule move_path_camera[OF segment_to_string_nat])
  have pt: "key_path (c_str (REG_PREFIX @ BSL # ?kt)) = ?dst"
    by (rule move_path_camera[OF segment_to_string_nat])
  have op: "RegOpenKeyExA r (c_str (REG_PREFIX @ BSL # ?kf)) = Some ?src"
    using assms by (simp add: RegOpenKeyExA_def pf Let_def)
  obtain r1 where cr: "RegCreateKeyExA r (c_str (REG_PREFIX @ BSL # ?kt)) = (Some ?dst, r1)"
    using fst_RegCreateKeyExA[OF assms(1), of "c_str (REG_PREFIX @ BSL # ?kt)"]
    by (cases "RegCreateKeyExA r (c_str (REG_PREFIX @ BSL # ?kt))") (simp add: pt)
  have r1: "unavailable r1 = []" "\<And>q name. val_at r1 q name = val_at r q name"
    using unavailable_RegCreateKeyExA[of r "c_str (REG_PREFIX @ BSL # ?kt)"]
      val_at_RegCreateKeyExA[of r "c_str (REG_PREFIX @ BSL # ?kt)"] assms(1)
    by (simp_all add: cr)
  obtain r2 where cp: "copyTree r1 ?src ?dst = (ERROR_SUCCESS, r2)"
    using copyTree_available(1)[OF r1(1), of ?src ?dst]
    by (cases "copyTree r1 ?src ?dst") simp
  have r2: "unavailable r2 = []"
    using copyTree_available(2)[OF r1(1), of ?src ?dst] by (simp add: cp)
  have v2: "val_at r2 q name =
          (if prefix ?dst q then
             (case val_at r (?src @ drop (length ?dst) q) name of
                Some v \<Rightarrow> Some v
              | None \<Rightarrow> val_at r q name)
           else val_at r q name)" for q name
    using copyTree_available(3)[OF r1(1), of ?src ?dst q name] unfolding cp r1(2) by simp
  have mv: "move ?kf ?kt r = deleteKey ?kf r2"
    by (simp add: move_def op cr cp Let_def)
  have n: "NUL \<notin> set ''Cameras''" by simp
  have dk: "val_at (deleteKey ?kf r2) q name =
     (if q = reg_root @ [''Cameras''] \<and> name = to_string_nat (Suc a) then None else val_at r2 q name)"
    using val_at_deleteKey_value[OF n segment_to_string_nat, of "Suc a" r2 q name] r2
      key_path_last[OF segment_literals(1)]
    by (simp add: Cameras_sep_def)
  show "unavailable (move ?kf ?kt r) = []" by (simp add: mv r2)
  have l: "length ?dst = 5" by (simp add: reg_root_def)
  show "val_at (move ?kf ?kt r) q name =
          (if q = reg_root @ [''Cameras''] \<and> name = to_string_nat (Suc a) then None
           else if prefix ?dst q then
             (case val_at r (?src @ drop 5 q) name of
                Some v \<Rightarrow> Some v
              | None \<Rightarrow> val_at r q name)
           else val_at r q name)"
    unfolding mv dk v2 l by simp
qed

text \<open>
  After a successful \<^verbatim>\<open>move\<close> of a camera the source container still holds every value
  it held: the key passed to \<^verbatim>\<open>deleteKey\<close> has no trailing separator.
\<close>

lemma move_camera_source_stays:
  assumes "unavailable r = []"
    and "map_of (keys r) (reg_root @ [''Cameras'', to_string_nat (Suc a)]) \<noteq> None"
  shows "val_at (move (Cameras_sep @ to_string_nat (Suc a)) (Cameras_sep @ to_string_nat a) r)
           (reg_root @ [''Cameras'', to_string_nat (Suc a)]) name
         = val_at r (reg_root @ [''Cameras'', to_string_nat (Suc a)]) name"
  by (simp add: move_camera(2)[OF assms] reg_root_def)

lemma size_not_digits: "to_string_nat n \<noteq> ''size''"
proof
  assume "to_string_nat n = ''size''"
  then have "CHR ''s'' \<in> set (to_string_nat n)" by simp
  with to_string_nat_digits[of n] show False by auto
qed

lemma removeCamera_loop_effect:
  "unavailable r = [] \<Longrightarrow>
   \<forall>m. a < m \<and> m \<le> N \<longrightarrow> val_at r (reg_root @ [''Cameras'', to_string_nat m]) ''path'' \<noteq> None \<Longrightarrow>
   unavailable (removeCamera_loop a N r) = [] \<and>
   val_at (removeCamera_loop a N r) (reg_root @ [''Cameras'']) ''size''
     = val_at r (reg_root @ [''Cameras'']) ''size'' \<and>
   (\<forall>m. val_at (removeCamera_loop a N r) (reg_root @ [''Cameras'', to_string_nat m]) ''path''
        = (if a \<le> m \<and> m < N then val_at r (reg_root @ [''Cameras'', to_string_nat (Suc m)]) ''path''
           else val_at r (reg_root @ [''Cameras'', to_string_nat m]) ''path''))"
proof (induction a N r rule: removeCamera_loop.induct)
  case (1 i N r)
  show ?case
  proof (cases "i < N")
    case False
    then have "removeCamera_loop i N r = r" by (subst removeCamera_loop.simps) simp
    then show ?thesis using False 1(2) by auto
  next
    case True
    let ?r' = "move (Cameras_sep @ to_string_nat (Suc i)) (Cameras_sep @ to_string_nat i) r"
    have src: "val_at r (reg_root @ [''Cameras'', to_string_nat (Suc i)]) ''path'' \<noteq> None"
      using True 1(3) by simp
    then have ex: "map_of (keys r) (reg_root @ [''Cameras'', to_string_nat (Suc i)]) \<noteq> None"
      by (auto simp: val_at_def split: option.splits)
    note mv = move_camera[OF 1(2) ex]
    have size': "val_at ?r' (reg_root @ [''Cameras'']) ''size'' = val_at r (reg_root @ [''Cameras'']) ''size''"
      using size_not_digits[of "Suc i"] by (simp add: mv(2))
    have path': "val_at ?r' (reg_root @ [''Cameras'', to_string_nat m]) ''path''
          = (if m = i then val_at r (reg_root @ [''Cameras'', to_string_nat (Suc i)]) ''path''
             else val_at r (reg_root @ [''Cameras'', to_string_nat m]) ''path'')" for m
      using src by (auto simp: mv(2) reg_root_def)
    have pre: "\<forall>m. i + 1 < m \<and> m \<le> N \<longrightarrow>
                 val_at ?r' (reg_root @ [''Cameras'', to_string_nat m]) ''path'' \<noteq> None"
      using 1(3) by (simp add: path')
    have step: "removeCamera_loop i N r = removeCamera_loop (i + 1) N ?r'"
      using True by (subst removeCamera_loop.simps) simp
    note IH = 1(1)[OF True, simplified, OF mv(1) pre[simplified]]
    show ?thesis
      unfolding step using IH True by (auto simp: size' path')
  qed
qed

lemma cameraFromPath_loop_first:
  assumes "i < camerasCount r" "cameraPath i r = path" "\<forall>k<i. cameraPath k r \<noteq> path"
  shows "j \<le> i \<Longrightarrow> cameraFromPath_loop path r j = int_of_size_t i"
proof (induction "i - j" arbitrary: j)
  case 0
  then have "j = i" by simp
  then show ?case using assms(1,2) by (subst cameraFromPath_loop.simps) simp
next
  case (Suc d)
  then have lt: "j < i" and d: "d = i - Suc j" and le: "Suc j \<le> i" by simp_all
  have "cameraFromPath_loop path r (Suc j) = int_of_size_t i" using Suc(1)[OF d le] .
  then show ?case
    using assms(1,3) lt by (subst cameraFromPath_loop.simps) simp
qed

lemma cameraFromPath_loop_none:
  "\<forall>k<camerasCount r. cameraPath k r \<noteq> path \<Longrightarrow> cameraFromPath_loop path r j = - 1"
proof (induction path r j rule: cameraFromPath_loop.induct)
  case (1 path r i)
  show ?case
  proof (cases "i < camerasCount r")
    case True
    then have "cameraPath i r \<noteq> path" using 1(2) by simp
    with True 1 show ?thesis by (subst cameraFromPath_loop.simps) simp
  next
    case False
    then show ?thesis by (subst cameraFromPath_loop.simps) simp
  qed
qed

lemma removeCamera_unregistered:
  "\<forall>k<camerasCount r. cameraPath k r \<noteq> path \<Longrightarrow> removeCamera ops path r = r"
  by (simp add: removeCamera_def cameraFromPath_def cameraFromPath_loop_none)

section \<open>Removing a camera\<close>

lemma readInt_range: "- (2 ^ 31) \<le> readInt key 0 r \<and> readInt key 0 r < 2 ^ 31"
proof -
  have "- (2 ^ 31) \<le> sint w \<and> sint w < 2 ^ 31" for w :: "32 word"
    using sint_ge[of w] sint_lt[of w] by simp
  then show ?thesis
    by (auto simp: readInt_def split: option.splits regval.splits)
qed

lemma to_string_int_nat: "to_string_int (int n) = to_string_nat n"
  by (simp add: to_string_int_def)

lemma size_t_add_small_gen: "n < 2 ^ 31 \<Longrightarrow> size_t_add n 1 = Suc n"
  by (simp add: size_t_add_def)

lemma size_t_add_Suc0: "n < 2 ^ 31 \<Longrightarrow> size_t_add n (Suc 0) = Suc n"
  by (simp add: size_t_add_def)

lemma cameraSetFormats_nil:
  assumes "unavailable r = []" "i < camerasCount r"
  shows "unavailable (cameraSetFormats ops i [] r) = []"
    and "\<not> prefix (reg_root @ [''Cameras'', to_string_nat (size_t_add i 1), ''Formats'']) q \<Longrightarrow>
         val_at (cameraSetFormats ops i [] r) q name = val_at r q name"
proof -
  let ?cam = "to_string_nat (size_t_add i 1)"
  have n: "NUL \<notin> set (''Cameras'' @ BSL # ?cam @ BSL # ''Formats'')"
    using segmentD[OF segment_to_string_nat, of "size_t_add i 1"] by simp
  have k: "key_path (''Cameras'' @ BSL # ?cam @ BSL # ''Formats'') = [''Cameras'', ?cam, ''Formats'']"
    by (simp only: key_path_segment[OF segment_literals(1)] key_path_segment[OF segment_to_string_nat]
          key_path_last[OF segment_literals(2)])
  have d: "Cameras_sep @ ?cam @ Formats_sep = (''Cameras'' @ BSL # ?cam @ BSL # ''Formats'') @ [BSL]"
    by (simp add: Cameras_sep_def Formats_sep_def)
  have e: "cameraSetFormats ops i [] r =
       write_int (Cameras_sep @ ?cam @ Formats_sep @ ''size'') (int_of_size_t 0)
         (deleteKey (Cameras_sep @ ?cam @ Formats_sep) r)"
    using assms(2) by (simp add: cameraSetFormats_def Let_def write_formats.simps)
  show "unavailable (cameraSetFormats ops i [] r) = []"
    using assms(1) by (simp add: e)
  assume q: "\<not> prefix (reg_root @ [''Cameras'', ?cam, ''Formats'']) q"
  then have q': "q \<noteq> reg_root @ [''Cameras'', ?cam, ''Formats'']" by auto
  have dk: "val_at (deleteKey (Cameras_sep @ ?cam @ Formats_sep) r) q name = val_at r q name"
    using val_at_deleteKey_tree[OF n, of r q name] q assms(1) unfolding k d[symmetric] by simp
  show "val_at (cameraSetFormats ops i [] r) q name = val_at r q name"
    unfolding e using q' assms(1)
    by (simp add: val_at_write_int dk loc_Formats_size[OF segment_to_string_nat] del: One_nat_def)
qed

lemma string_at_cong: "val_at r p name = val_at r' p' name' \<Longrightarrow> string_at r p name = string_at r' p' name'"
  by (simp add: string_at_def)

lemma string_at_nonempty: "string_at r p name \<noteq> [] \<Longrightarrow> val_at r p name \<noteq> None"
  by (auto simp: string_at_def split: option.splits)

lemma removeCamera_registered:
  assumes u: "unavailable r = []"
    and cnt: "readInt Cameras_size 0 r = int N"
    and N1: "1 \<le> N"
    and paths: "\<forall>k<N. val_at r (reg_root @ [''Cameras'', to_string_nat (k + 1)]) ''path'' \<noteq> None"
    and dist: "distinct (map (\<lambda>k. cameraPath k r) [0..<N])"
    and iN: "i < N"
  shows "camerasCount (removeCamera ops (cameraPath i r) r) = N - 1"
    and "\<forall>j<N - 1. cameraPath j (removeCamera ops (cameraPath i r) r)
            = (if j < i then cameraPath j r else cameraPath (j + 1) r)"
    and "Suc i < N \<longrightarrow>
           val_at (removeCamera ops (cameraPath i r) r) (reg_root @ [''Cameras'', to_string_nat N]) ''path''
           = val_at r (reg_root @ [''Cameras'', to_string_nat N]) ''path''"
proof -
  let ?cams = "reg_root @ [''Cameras'']"
  let ?cam = "\<lambda>m. reg_root @ [''Cameras'', to_string_nat m]"
  have Nb: "N < 2 ^ 31"
    using readInt_range[of Cameras_size r] cnt by simp
  have cc: "camerasCount r = N"
    using Nb by (simp add: camerasCount_def cnt size_t_of_int_small)
  have cp: "cameraPath k s = string_at s (?cam (Suc k)) ''path''"
    if "unavailable s = []" "k < N" for k s
    using that Nb by (simp add: cameraPath_at size_t_add_Suc0)
  have pv: "val_at r (?cam (Suc k)) ''path'' \<noteq> None" if "k < N" for k
    using paths that by simp
  have first: "\<forall>k<i. cameraPath k r \<noteq> cameraPath i r"
  proof (intro allI impI)
    fix k assume k: "k < i"
    from dist have "inj_on (\<lambda>k. cameraPath k r) (set [0..<N])" by (simp add: distinct_map)
    then show "cameraPath k r \<noteq> cameraPath i r"
      using k iN by (auto dest: inj_onD)
  qed
  have ib: "i < 2 ^ 31" "Suc i < 2 ^ 31 \<or> Suc i = 2 ^ 31" using iN Nb by simp_all
  have idx: "cameraFromPath (cameraPath i r) r = int i"
    using cameraFromPath_loop_first[OF _ refl first, of 0] iN cc ib
    by (simp add: cameraFromPath_def int_of_size_t_small)
  have i1: "int_add (int i) 1 = int (Suc i)"
    using iN Nb by (simp add: int_add_small)
  have si: "size_t_of_int (int i) = i" "size_t_of_int (int (Suc i)) = Suc i"
    using iN Nb by (simp_all add: size_t_of_int_small)
  define r1 where "r1 = cameraSetFormats ops i [] r"
  define r2 where "r2 = deleteKey (Cameras_sep @ to_string_nat (Suc i) @ [BSL]) r1"
  define r3 where "r3 = removeCamera_loop (Suc i) N r2"
  define r4 where "r4 = (if N > 1 then write_int Cameras_size (int_of_size_t (N - 1)) r3
                         else deleteKey Cameras_sep r3)"
  have sa: "size_t_add i 1 = Suc i" using ib(1) by (rule size_t_add_small_gen)
  note csf = cameraSetFormats_nil[OF u, where i = i and ops = ops, unfolded cc sa, OF iN, folded r1_def]
  have u1: "unavailable r1 = []" by (rule csf(1))
  have v1s: "val_at r1 ?cams ''size'' = val_at r ?cams ''size''"
    by (rule csf(2)) (simp add: reg_root_def)
  have v1p: "val_at r1 (?cam m) ''path'' = val_at r (?cam m) ''path''" for m
    by (rule csf(2)) (simp add: reg_root_def)
  have c1: "camerasCount r1 = N"
    using cc u u1 v1s by (simp add: camerasCount_at int_at_def)
  have n: "NUL \<notin> set (''Cameras'' @ BSL # to_string_nat (Suc i))"
    using segmentD[OF segment_to_string_nat, of "Suc i"] by simp
  have k: "key_path (''Cameras'' @ BSL # to_string_nat (Suc i)) = [''Cameras'', to_string_nat (Suc i)]"
    by (simp only: key_path_segment[OF segment_literals(1)] key_path_last[OF segment_to_string_nat])
  have d: "Cameras_sep @ to_string_nat (Suc i) @ [BSL] = (''Cameras'' @ BSL # to_string_nat (Suc i)) @ [BSL]"
    by (simp add: Cameras_sep_def)
  have v2: "val_at r2 q name = (if prefix (?cam (Suc i)) q then None else val_at r1 q name)" for q name
    using val_at_deleteKey_tree[OF n, of r1 q name] u1 unfolding k d[symmetric] r2_def by simp
  have u2: "unavailable r2 = []" by (simp add: r2_def u1)
  have v2s: "val_at r2 ?cams ''size'' = val_at r ?cams ''size''"
    by (simp add: v2 v1s)
  have v2p: "val_at r2 (?cam m) ''path'' = (if m = Suc i then None else val_at r (?cam m) ''path'')" for m
    by (simp add: v2 v1p)
  have pre: "\<forall>m. Suc i < m \<and> m \<le> N \<longrightarrow> val_at r2 (?cam m) ''path'' \<noteq> None"
  proof (intro allI impI)
    fix m assume m: "Suc i < m \<and> m \<le> N"
    then obtain k where "m = Suc k" "k < N" by (cases m) auto
    with m pv[of k] show "val_at r2 (?cam m) ''path'' \<noteq> None" by (simp add: v2p)
  qed
  note lp = removeCamera_loop_effect[OF u2 pre, folded r3_def]
  have u3: "unavailable r3 = []" using lp by blast
  have v3s: "val_at r3 ?cams ''size'' = val_at r ?cams ''size''" using lp v2s by simp
  have v3p: "val_at r3 (?cam m) ''path''
        = (if Suc i \<le> m \<and> m < N then val_at r2 (?cam (Suc m)) ''path''
           else val_at r2 (?cam m) ''path'')" for m
    using lp by blast
  have res: "removeCamera ops (cameraPath i r) r = r4"
    by (simp add: removeCamera_def idx Let_def si i1 to_string_int_nat c1
          r1_def[symmetric] r2_def[symmetric] r3_def[symmetric] r4_def del: One_nat_def of_nat_Suc)
  have u4: "unavailable r4 = []" by (simp add: r4_def u3)
  show "camerasCount (removeCamera ops (cameraPath i r) r) = N - 1"
  proof (cases "N > 1")
    case True
    have "sint (word_of_int (int (N - 1)) :: 32 word) = int (N - 1)"
      using Nb by (intro sint_word_of_int_small) simp_all
    moreover have "size_t_of_int (int (N - 1)) = N - 1"
      using Nb by (subst size_t_of_int_small) simp_all
    moreover have "int_of_size_t (N - 1) = int (N - 1)"
      using Nb by (simp add: int_of_size_t_small)
    ultimately show ?thesis
      using True u4 u3
      by (simp add: res camerasCount_at int_at_def r4_def val_at_write_int loc_Cameras_size
            del: One_nat_def of_nat_diff)
  next
    case False
    with N1 have N: "N = 1" by simp
    have nc: "NUL \<notin> set ''Cameras''" by simp
    have "val_at (deleteKey (''Cameras'' @ [BSL]) r3) ?cams ''size'' = None"
      using val_at_deleteKey_tree[OF nc, of r3 ?cams "''size''"] u3
        key_path_last[OF segment_literals(1)] by simp
    then have "val_at r4 ?cams ''size'' = None"
      using False by (simp add: r4_def Cameras_sep_def)
    then show ?thesis using u4 N
      by (simp add: res camerasCount_at int_at_def size_t_of_int_def)
  qed
  show "\<forall>j<N - 1. cameraPath j (removeCamera ops (cameraPath i r) r)
            = (if j < i then cameraPath j r else cameraPath (j + 1) r)"
  proof (intro allI impI)
    fix j assume j: "j < N - 1"
    then have N2: "N > 1" and jN: "j < N" and j1N: "Suc j < N" by simp_all
    have v4p: "val_at r4 (?cam m) ''path'' = val_at r3 (?cam m) ''path''" for m
      using N2 u3 by (simp add: r4_def val_at_write_int loc_Cameras_size)
    have "val_at r4 (?cam (Suc j)) ''path''
          = (if j < i then val_at r (?cam (Suc j)) ''path'' else val_at r (?cam (Suc (Suc j))) ''path'')"
      using j1N by (auto simp: v4p v3p v2p)
    then have "string_at r4 (?cam (Suc j)) ''path''
          = (if j < i then string_at r (?cam (Suc j)) ''path'' else string_at r (?cam (Suc (Suc j))) ''path'')"
      by (simp add: string_at_def)
    then show "cameraPath j (removeCamera ops (cameraPath i r) r)
            = (if j < i then cameraPath j r else cameraPath (j + 1) r)"
      using cp[OF u4 jN] cp[OF u jN] cp[OF u j1N] by (simp add: res)
  qed
  show "Suc i < N \<longrightarrow>
           val_at (removeCamera ops (cameraPath i r) r) (?cam N) ''path'' = val_at r (?cam N) ''path''"
  proof
    assume a: "Suc i < N"
    then have "val_at r4 (?cam N) ''path'' = val_at r3 (?cam N) ''path''"
      using u3 by (simp add: r4_def val_at_write_int loc_Cameras_size)
    also have "\<dots> = val_at r (?cam N) ''path''"
      using a by (simp add: v3p v2p)
    finally show "val_at (removeCamera ops (cameraPath i r) r) (?cam N) ''path''
                  = val_at r (?cam N) ''path''"
      by (simp add: res)
  qed
qed

text \<open>
  Claim C1. For every store that holds \<open>N \<ge> 1\<close> cameras (the backend is available, the
  stored count reads \<open>N\<close>, every index below \<open>N\<close> has a stored path value) with pairwise distinct
  paths, and every index \<open>i < N\<close>, \<^verbatim>\<open>removeCamera\<close> on the path of camera \<open>i\<close> leaves
  \<^verbatim>\<open>camerasCount()\<close> equal to \<open>N - 1\<close>, and for every \<open>j < N - 1\<close> \<^verbatim>\<open>cameraPath(j)\<close> is then
  the path that was at \<open>j\<close> when \<open>j < i\<close> and the path that was at \<open>j + 1\<close> otherwise;
  \<^verbatim>\<open>removeCamera\<close> on a path that no camera has changes nothing.
\<close>

theorem removeCamera_reindex:
  "(unavailable r = [] \<and> readInt Cameras_size 0 r = int N \<and> 1 \<le> N \<and>
    (\<forall>k<N. val_at r (reg_root @ [''Cameras'', to_string_nat (k + 1)]) ''path'' \<noteq> None) \<and>
    distinct (map (\<lambda>k. cameraPath k r) [0..<N]) \<and> i < N \<longrightarrow>
      camerasCount (removeCamera ops (cameraPath i r) r) = N - 1 \<and>
      (\<forall>j<N - 1. cameraPath j (removeCamera ops (cameraPath i r) r)
                  = (if j < i then cameraPath j r else cameraPath (j + 1) r))) \<and>
   ((\<forall>k<camerasCount r. cameraPath k r \<noteq> path) \<longrightarrow> removeCamera ops path r = r)"
  using removeCamera_registered(1,2)[of r N i ops] removeCamera_unregistered[of r path ops]
  by blast

lemma less_3_cases: "k < 3 \<Longrightarrow> k = 0 \<or> k = Suc 0 \<or> k = (2::nat)"
  by arith

theorem removeCamera_reindex_witness:
  "camerasCount (removeCamera tuple_ops ''AkVCamVideoDevice2'' example_store) = 2 \<and>
   cameraPath 0 (removeCamera tuple_ops ''AkVCamVideoDevice2'' example_store) = ''AkVCamVideoDevice0'' \<and>
   cameraPath 1 (removeCamera tuple_ops ''AkVCamVideoDevice2'' example_store) = ''AkVCamVideoDevice1'' \<and>
   removeCamera tuple_ops ''AkVCamVideoDevice7'' example_store = example_store"
proof -
  have u: "unavailable example_store = []" by (simp add: example_store_def)
  have c0: "readInt Cameras_size 0 example_store
            = int_at example_store (reg_root @ [''Cameras'']) ''size''"
    by (simp add: readInt_int_at[OF u] loc_Cameras_size)
  have c: "readInt Cameras_size 0 example_store = int 3"
    unfolding c0
    by (simp add: int_at_def val_at_def example_store_def example_keys_def reg_root_def)
  have p: "\<forall>k<3. val_at example_store (reg_root @ [''Cameras'', to_string_nat (k + 1)]) ''path'' \<noteq> None"
  proof (intro allI impI)
    fix k :: nat assume "k < 3"
    then have "k = 0 \<or> k = Suc 0 \<or> k = 2" by (rule less_3_cases)
    then show "val_at example_store (reg_root @ [''Cameras'', to_string_nat (k + 1)]) ''path'' \<noteq> None"
      by (auto simp: to_string_small val_at_def example_store_def example_keys_def reg_root_def
            numeral_2_eq_2[symmetric])
  qed
  have d: "distinct (map (\<lambda>k. cameraPath k example_store) [0..<3])"
    by (simp add: upt_small example_store_paths)
  have n: "\<forall>k<camerasCount example_store. cameraPath k example_store \<noteq> ''AkVCamVideoDevice7''"
  proof (intro allI impI)
    fix k :: nat assume "k < camerasCount example_store"
    then have "k = 0 \<or> k = Suc 0 \<or> k = 2" by (simp add: example_store_counts less_3_cases)
    then show "cameraPath k example_store \<noteq> ''AkVCamVideoDevice7''"
      by (auto simp: example_store_paths)
  qed
  have "camerasCount (removeCamera tuple_ops (cameraPath 1 example_store) example_store) = 3 - 1 \<and>
      (\<forall>j<3 - 1. cameraPath j (removeCamera tuple_ops (cameraPath 1 example_store) example_store)
                  = (if j < 1 then cameraPath j example_store else cameraPath (j + 1) example_store))"
    using removeCamera_reindex [of example_store 3 1 tuple_ops "''AkVCamVideoDevice7''"] u c p d
    by simp
  moreover have "removeCamera tuple_ops ''AkVCamVideoDevice7'' example_store = example_store"
    using removeCamera_reindex [of example_store 3 1 tuple_ops "''AkVCamVideoDevice7''"] n
    by blast
  ultimately show ?thesis
    by (simp add: example_store_paths numeral_2_eq_2[symmetric])
qed

section \<open>The sibling addDevice, and what the format loop writes\<close>

text \<open>The sibling \<^verbatim>\<open>addDevice\<close> reads the stored count and does increase it by one.\<close>

lemma addDevice_count:
  assumes "unavailable r = []" "0 \<le> readInt Cameras_size 0 r" "readInt Cameras_size 0 r < 2 ^ 31 - 1"
  shows "camerasCount (snd (addDevice pl description r)) = camerasCount r + 1"
proof -
  let ?n = "readInt Cameras_size 0 r"
  have i: "int_add ?n 1 = ?n + 1" using assms(2,3) by (simp add: int_add_small)
  have seg: "segment (to_string_int (?n + 1))" by (rule segment_to_string_int)
  have s: "sint (word_of_int (?n + 1) :: 32 word) = ?n + 1"
    using assms(2,3) by (intro sint_word_of_int_small) simp_all
  have "val_at (snd (addDevice pl description r)) (reg_root @ [''Cameras'']) ''size''
        = Some (REG_DWORD (word_of_int (?n + 1)))"
    using assms(1)
    by (simp add: addDevice_def Let_def i val_at_write_int val_at_write_string loc_Cameras_size
          loc_camera_field[OF seg] segment_literals reg_root_def)
  moreover have "unavailable (snd (addDevice pl description r)) = []"
    using assms(1) by (simp add: addDevice_def Let_def)
  moreover have "size_t_of_int (?n + 1) = size_t_of_int ?n + 1"
    using assms(2,3) by (simp add: size_t_of_int_small nat_add_distrib)
  ultimately have "camerasCount (snd (addDevice pl description r)) = size_t_of_int ?n + 1"
    using s by (simp add: camerasCount_at int_at_def)
  then show ?thesis by (simp add: camerasCount_def)
qed

lemma write_format_entry:
  assumes "unavailable r = []" "segment cam"
  shows "val_at
     (write_string (Cameras_sep @ cam @ Formats_sep @ to_string_nat (Suc i) @ BSL # ''fps'') d
       (write_int (Cameras_sep @ cam @ Formats_sep @ to_string_nat (Suc i) @ BSL # ''height'') c
         (write_int (Cameras_sep @ cam @ Formats_sep @ to_string_nat (Suc i) @ BSL # ''width'') b
           (write_string (Cameras_sep @ cam @ Formats_sep @ to_string_nat (Suc i) @ BSL # ''format'') a r))))
     (reg_root @ [''Cameras'', cam, ''Formats'', to_string_nat (Suc k)]) name =
     (if k = i then
        (if name = ''format'' then Some (REG_SZ a)
         else if name = ''width'' then Some (REG_DWORD (word_of_int b))
         else if name = ''height'' then Some (REG_DWORD (word_of_int c))
         else if name = ''fps'' then Some (REG_SZ d)
         else val_at r (reg_root @ [''Cameras'', cam, ''Formats'', to_string_nat (Suc k)]) name)
      else val_at r (reg_root @ [''Cameras'', cam, ''Formats'', to_string_nat (Suc k)]) name)"
  using assms(1)
  by (simp add: val_at_write_int val_at_write_string
        loc_format_field[OF assms(2) segment_to_string_nat] segment_literals)

lemma write_formats_step:
  "i < length formats \<Longrightarrow>
   write_formats ops cam formats i r =
   write_formats ops cam formats (Suc i)
     (write_string (Cameras_sep @ cam @ Formats_sep @ to_string_nat (Suc i) @ BSL # ''fps'')
        (vf_fps ops (formats ! i))
       (write_int (Cameras_sep @ cam @ Formats_sep @ to_string_nat (Suc i) @ BSL # ''height'')
          (vf_height ops (formats ! i))
         (write_int (Cameras_sep @ cam @ Formats_sep @ to_string_nat (Suc i) @ BSL # ''width'')
            (vf_width ops (formats ! i))
           (write_string (Cameras_sep @ cam @ Formats_sep @ to_string_nat (Suc i) @ BSL # ''format'')
              (vf_format ops (formats ! i)) r))))"
  by (subst write_formats.simps) (simp add: Let_def)

lemma write_formats_done: "\<not> i < length formats \<Longrightarrow> write_formats ops cam formats i r = r"
  by (subst write_formats.simps) simp

lemma write_formats_below:
  assumes "segment cam"
  shows "unavailable r = [] \<Longrightarrow> k < i \<Longrightarrow>
     val_at (write_formats ops cam formats i r)
       (reg_root @ [''Cameras'', cam, ''Formats'', to_string_nat (Suc k)]) name =
     val_at r (reg_root @ [''Cameras'', cam, ''Formats'', to_string_nat (Suc k)]) name"
proof (induction "length formats - i" arbitrary: i r)
  case 0
  then show ?case by (simp add: write_formats_done)
next
  case (Suc d)
  then have i: "i < length formats" and d: "d = length formats - Suc i" by simp_all
  show ?case
    unfolding write_formats_step[OF i]
    using Suc(1)[OF d _ less_SucI[OF Suc(4)]] Suc(3,4)
    by (simp add: write_format_entry[OF _ assms])
qed

lemma write_formats_entries:
  assumes "segment cam"
  shows "unavailable r = [] \<Longrightarrow> i \<le> k \<Longrightarrow> k < length formats \<Longrightarrow>
     val_at (write_formats ops cam formats i r)
       (reg_root @ [''Cameras'', cam, ''Formats'', to_string_nat (Suc k)]) name =
     (if name = ''format'' then Some (REG_SZ (vf_format ops (formats ! k)))
      else if name = ''width'' then Some (REG_DWORD (word_of_int (vf_width ops (formats ! k))))
      else if name = ''height'' then Some (REG_DWORD (word_of_int (vf_height ops (formats ! k))))
      else if name = ''fps'' then Some (REG_SZ (vf_fps ops (formats ! k)))
      else val_at r (reg_root @ [''Cameras'', cam, ''Formats'', to_string_nat (Suc k)]) name)"
proof (induction "k - i" arbitrary: i r)
  case 0
  then have ki: "k = i" and i: "i < length formats" by simp_all
  show ?case
    unfolding write_formats_step[OF i]
    using 0(2) ki
    by (simp add: write_formats_below[OF assms] write_format_entry[OF _ assms])
next
  case (Suc d)
  then have i: "i < length formats" and d: "d = k - Suc i" and le: "Suc i \<le> k" and ne: "k \<noteq> i"
    by simp_all
  show ?case
    unfolding write_formats_step[OF i]
    using Suc(1)[OF d _ le Suc(5)] Suc(3) ne
    by (simp add: write_format_entry[OF _ assms])
qed

lemma write_formats_holds:
  assumes "unavailable r = []" "segment cam" "k < length formats"
  shows "entry_holds ops (write_formats ops cam formats 0 r) cam (Suc k) (formats ! k)"
  using write_formats_entries[OF assms(2,1) _ assms(3), of 0 ops]
  by (simp add: entry_holds_def)

lemma formats_size_written:
  assumes "unavailable r = []" "length formats < 2 ^ 31"
  shows "formatsCount cameraIndex
           (write_formats ops (to_string_nat (size_t_add cameraIndex 1)) formats 0
              (write_int (Cameras_sep @ to_string_nat (size_t_add cameraIndex 1) @ Formats_sep @ ''size'')
                 (int_of_size_t (length formats)) r))
         = length formats"
proof -
  let ?r' = "write_formats ops (to_string_nat (size_t_add cameraIndex 1)) formats 0
              (write_int (Cameras_sep @ to_string_nat (size_t_add cameraIndex 1) @ Formats_sep @ ''size'')
                 (int_of_size_t (length formats)) r)"
  have u: "unavailable ?r' = []" using assms(1) by simp
  have s: "sint (word_of_int (int (length formats)) :: 32 word) = int (length formats)"
    using assms(2) by (intro sint_word_of_int_small) simp_all
  have z: "size_t_of_int (int (length formats)) = length formats"
    using assms(2) by (subst size_t_of_int_small) simp_all
  have "val_at ?r' (reg_root @ [''Cameras'', to_string_nat (size_t_add cameraIndex 1), ''Formats'']) ''size''
        = Some (REG_DWORD (word_of_int (int (length formats))))"
    using assms
    by (simp add: val_at_write_formats_other[OF segment_to_string_nat] val_at_write_int
          loc_Formats_size[OF segment_to_string_nat] int_of_size_t_small reg_root_def
          del: One_nat_def)
  then show ?thesis
    using s z by (simp add: formatsCount_at[OF u] int_at_def del: One_nat_def)
qed

text \<open>
  \<^verbatim>\<open>cameraSetFormats\<close> and \<^verbatim>\<open>cameraAddFormat\<close> leave the stored size equal to the length of
  the new list and the entries \<open>1..size\<close> of the camera holding the new list in order.
\<close>

lemma cameraSetFormats_stores:
  assumes "unavailable r = []" "cameraIndex < camerasCount r" "length formats < 2 ^ 31"
  shows "formatsCount cameraIndex (cameraSetFormats ops cameraIndex formats r) = length formats"
    and "\<forall>k<length formats.
           entry_holds ops (cameraSetFormats ops cameraIndex formats r)
             (to_string_nat (size_t_add cameraIndex 1)) (Suc k) (formats ! k)"
proof -
  let ?r0 = "deleteKey (Cameras_sep @ to_string_nat (size_t_add cameraIndex 1) @ Formats_sep) r"
  have e: "cameraSetFormats ops cameraIndex formats r =
      write_formats ops (to_string_nat (size_t_add cameraIndex 1)) formats 0
        (write_int (Cameras_sep @ to_string_nat (size_t_add cameraIndex 1) @ Formats_sep @ ''size'')
           (int_of_size_t (length formats)) ?r0)"
    using assms(2) by (simp add: cameraSetFormats_def Let_def)
  have u0: "unavailable ?r0 = []" using assms(1) by simp
  show "formatsCount cameraIndex (cameraSetFormats ops cameraIndex formats r) = length formats"
    unfolding e by (rule formats_size_written[OF u0 assms(3)])
  show "\<forall>k<length formats.
           entry_holds ops (cameraSetFormats ops cameraIndex formats r)
             (to_string_nat (size_t_add cameraIndex 1)) (Suc k) (formats ! k)"
    unfolding e using u0 by (auto intro!: write_formats_holds segment_to_string_nat)
qed

lemma cameraAddFormat_stores:
  assumes "unavailable r = []" "length (cameraFormats ops cameraIndex r) < 2 ^ 31 - 1"
  shows "\<exists>formats. length formats = length (cameraFormats ops cameraIndex r) + 1 \<and>
           formats = vector_insert (cameraFormats ops cameraIndex r)
                       (if index < 0 \<or> index > int (length (cameraFormats ops cameraIndex r))
                        then int (length (cameraFormats ops cameraIndex r)) else index) format \<and>
           formatsCount cameraIndex (cameraAddFormat ops cameraIndex format index r) = length formats \<and>
           (\<forall>k<length formats.
              entry_holds ops (cameraAddFormat ops cameraIndex format index r)
                (to_string_nat (size_t_add cameraIndex 1)) (Suc k) (formats ! k))"
proof -
  let ?old = "cameraFormats ops cameraIndex r"
  let ?ix = "if index < 0 \<or> index > int (length ?old) then int (length ?old) else index"
  let ?new = "vector_insert ?old ?ix format"
  have l: "int_of_size_t (length ?old) = int (length ?old)"
    using assms(2) by (simp add: int_of_size_t_small)
  have len: "length ?new = length ?old + 1"
    by (auto simp: vector_insert_def)
  then have lb: "length ?new < 2 ^ 31" using assms(2) by simp
  have e: "cameraAddFormat ops cameraIndex format index r =
      write_formats ops (to_string_nat (size_t_add cameraIndex 1)) ?new 0
        (write_int (Cameras_sep @ to_string_nat (size_t_add cameraIndex 1) @ Formats_sep @ ''size'')
           (int_of_size_t (length ?new)) r)"
    by (simp add: cameraAddFormat_def Let_def l)
  have c: "formatsCount cameraIndex (cameraAddFormat ops cameraIndex format index r) = length ?new"
    unfolding e by (rule formats_size_written[OF assms(1) lb])
  have h: "\<forall>k<length ?new.
              entry_holds ops (cameraAddFormat ops cameraIndex format index r)
                (to_string_nat (size_t_add cameraIndex 1)) (Suc k) (?new ! k)"
    unfolding e using assms(1) by (auto intro!: write_formats_holds segment_to_string_nat)
  from len c h show ?thesis by blast
qed

section \<open>Format indices out of range\<close>

text \<open>
  Claim C9. For a camera whose stored format list has length \<open>L\<close>, \<^verbatim>\<open>cameraAddFormat\<close> with
  an index that is negative or greater than \<open>L\<close> inserts the format at the end: afterwards
  the camera's format count is \<open>L + 1\<close>, the entries \<open>1..L\<close> hold the old list in order and
  the entry \<open>L + 1\<close> holds the new format, which is what the call with the index \<open>L\<close> itself
  produces (for an available store and a new length that fits an \<^verbatim>\<open>int\<close>).
  \<^verbatim>\<open>cameraRemoveFormat\<close> with an index outside \<open>0..L-1\<close> changes nothing.
\<close>

theorem format_index_out_of_range:
  "(unavailable r = [] \<and> length (cameraFormats ops cameraIndex r) < 2 ^ 31 - 1 \<and>
    (index < 0 \<or> int (length (cameraFormats ops cameraIndex r)) < index) \<longrightarrow>
      formatsCount cameraIndex (cameraAddFormat ops cameraIndex format index r)
        = length (cameraFormats ops cameraIndex r) + 1 \<and>
      (\<forall>k<length (cameraFormats ops cameraIndex r).
         entry_holds ops (cameraAddFormat ops cameraIndex format index r)
           (to_string_nat (size_t_add cameraIndex 1)) (Suc k) (cameraFormats ops cameraIndex r ! k)) \<and>
      entry_holds ops (cameraAddFormat ops cameraIndex format index r)
        (to_string_nat (size_t_add cameraIndex 1)) (Suc (length (cameraFormats ops cameraIndex r))) format \<and>
      cameraAddFormat ops cameraIndex format index r
        = cameraAddFormat ops cameraIndex format (int (length (cameraFormats ops cameraIndex r))) r) \<and>
   (length (cameraFormats ops cameraIndex r) < 2 ^ 31 \<and>
    (index < 0 \<or> int (length (cameraFormats ops cameraIndex r)) \<le> index) \<longrightarrow>
      cameraRemoveFormat ops cameraIndex index r = r)"
proof (intro conjI impI)
  let ?old = "cameraFormats ops cameraIndex r"
  let ?r' = "cameraAddFormat ops cameraIndex format index r"
  let ?cam = "to_string_nat (size_t_add cameraIndex 1)"
  assume a: "unavailable r = [] \<and> length ?old < 2 ^ 31 - 1 \<and> (index < 0 \<or> int (length ?old) < index)"
  then have u: "unavailable r = []" and b: "length ?old < 2 ^ 31 - 1"
    and i: "index < 0 \<or> index > int (length ?old)" by auto
  have v: "vector_insert ?old (int (length ?old)) format = ?old @ [format]"
    by (simp add: vector_insert_def)
  from cameraAddFormat_stores[OF u b, where format = format and index = index] i v
  have c: "formatsCount cameraIndex ?r' = length (?old @ [format])"
    and h: "\<forall>k<length (?old @ [format]). entry_holds ops ?r' ?cam (Suc k) ((?old @ [format]) ! k)"
    by auto
  from c show "formatsCount cameraIndex ?r' = length ?old + 1" by simp
  show "\<forall>k<length ?old. entry_holds ops ?r' ?cam (Suc k) (?old ! k)"
  proof (intro allI impI)
    fix k assume k: "k < length ?old"
    then have "k < length (?old @ [format])" by simp
    with h have "entry_holds ops ?r' ?cam (Suc k) ((?old @ [format]) ! k)" by blast
    with k show "entry_holds ops ?r' ?cam (Suc k) (?old ! k)" by (simp add: nth_append)
  qed
  have "entry_holds ops ?r' ?cam (Suc (length ?old)) ((?old @ [format]) ! length ?old)"
    using h[rule_format, of "length ?old"] by simp
  then show "entry_holds ops ?r' ?cam (Suc (length ?old)) format" by simp
  have l: "int_of_size_t (length ?old) = int (length ?old)"
    using b by (simp add: int_of_size_t_small)
  show "?r' = cameraAddFormat ops cameraIndex format (int (length ?old)) r"
    using i by (auto simp: cameraAddFormat_def Let_def l)
next
  assume "length (cameraFormats ops cameraIndex r) < 2 ^ 31 \<and>
    (index < 0 \<or> int (length (cameraFormats ops cameraIndex r)) \<le> index)"
  then show "cameraRemoveFormat ops cameraIndex index r = r"
    by (auto simp: cameraRemoveFormat_def Let_def int_of_size_t_small)
qed

theorem format_index_out_of_range_witness:
  "formatsCount 0 (cameraAddFormat tuple_ops 0 (''YUY2'', 320, 240, ''15/1'') 7 example_store) = 2 \<and>
   entry_holds tuple_ops (cameraAddFormat tuple_ops 0 (''YUY2'', 320, 240, ''15/1'') 7 example_store)
     ''1'' 1 (''RGB24'', 640, 480, ''30/1'') \<and>
   entry_holds tuple_ops (cameraAddFormat tuple_ops 0 (''YUY2'', 320, 240, ''15/1'') 7 example_store)
     ''1'' 2 (''YUY2'', 320, 240, ''15/1'') \<and>
   formatsCount 0 (cameraAddFormat tuple_ops 0 (''YUY2'', 320, 240, ''15/1'') (- 1) example_store) = 2 \<and>
   entry_holds tuple_ops (cameraAddFormat tuple_ops 0 (''YUY2'', 320, 240, ''15/1'') (- 1) example_store)
     ''1'' 1 (''RGB24'', 640, 480, ''30/1'') \<and>
   entry_holds tuple_ops (cameraAddFormat tuple_ops 0 (''YUY2'', 320, 240, ''15/1'') (- 1) example_store)
     ''1'' 2 (''YUY2'', 320, 240, ''15/1'') \<and>
   cameraRemoveFormat tuple_ops 0 1 example_store = example_store \<and>
   cameraRemoveFormat tuple_ops 0 (- 1) example_store = example_store"
proof -
  let ?f = "(''YUY2'', 320 :: int, 240 :: int, ''15/1'')"
  have u: "unavailable example_store = []" by (simp add: example_store_def)
  have o: "cameraFormats tuple_ops 0 example_store = [(''RGB24'', 640, 480, ''30/1'')]"
    by (rule example_store_cameraFormats(1))
  have s: "to_string_nat (size_t_add 0 1) = ''1''"
    using size_t_add_small(1) to_string_small(2) by simp
  have a: "formatsCount 0 (cameraAddFormat tuple_ops 0 ?f 7 example_store) = Suc (Suc 0) \<and>
     entry_holds tuple_ops (cameraAddFormat tuple_ops 0 ?f 7 example_store) ''1'' (Suc 0)
       (''RGB24'', 640, 480, ''30/1'') \<and>
     entry_holds tuple_ops (cameraAddFormat tuple_ops 0 ?f 7 example_store) ''1'' (Suc (Suc 0)) ?f"
    using format_index_out_of_range [of example_store tuple_ops 0 7 ?f, unfolded o s, simplified] u
    by blast
  have b: "formatsCount 0 (cameraAddFormat tuple_ops 0 ?f (- 1) example_store) = Suc (Suc 0) \<and>
     entry_holds tuple_ops (cameraAddFormat tuple_ops 0 ?f (- 1) example_store) ''1'' (Suc 0)
       (''RGB24'', 640, 480, ''30/1'') \<and>
     entry_holds tuple_ops (cameraAddFormat tuple_ops 0 ?f (- 1) example_store) ''1'' (Suc (Suc 0)) ?f"
    using format_index_out_of_range [of example_store tuple_ops 0 "- 1" ?f, unfolded o s, simplified] u
    by blast
  have c: "cameraRemoveFormat tuple_ops 0 1 example_store = example_store"
    using format_index_out_of_range [of example_store tuple_ops 0 1 ?f]
    unfolding o by simp
  have d: "cameraRemoveFormat tuple_ops 0 (- 1) example_store = example_store"
    using format_index_out_of_range [of example_store tuple_ops 0 "- 1" ?f]
    unfolding o by simp
  from a b c d show ?thesis by (simp add: numeral_2_eq_2)
qed

section \<open>What a failed move leaves\<close>

text \<open>
  Creating a container and copying a subtree only add to the table: a container that is
  in the table stays in it, and a value that a container has stays a value of that
  container (a copy may overwrite its data, when the copy's destination is that
  container).
\<close>

lemma present_put_container:
  "map_of ks p \<noteq> None \<Longrightarrow> map_of (put_container q c ks) p \<noteq> None"
  by (auto simp: put_container_def Let_def update_conv' map_of_create_path)

lemma val_present_put_container:
  "val_at r p name \<noteq> None \<Longrightarrow> val_at (r\<lparr>keys := put_container q c (keys r)\<rparr>) p name \<noteq> None"
  by (auto simp: val_at_put_container split: option.splits)

lemma present_copy_keys:
  "(map_of (keys r) p \<noteq> None \<longrightarrow> map_of (keys (snd (copy_keys snap src dst ps r))) p \<noteq> None) \<and>
   (val_at r p name \<noteq> None \<longrightarrow> val_at (snd (copy_keys snap src dst ps r)) p name \<noteq> None)"
proof (induction ps arbitrary: r)
  case Nil
  then show ?case by simp
next
  case (Cons a ps)
  let ?q = "dst @ drop (length src) a"
  let ?r = "r\<lparr>keys := put_container ?q (case map_of snap a of None \<Rightarrow> [] | Some c \<Rightarrow> c) (keys r)\<rparr>"
  show ?case
  proof (cases "a \<in> set (unavailable r) \<or> ?q \<in> set (unavailable r)")
    case True
    then show ?thesis by (simp add: Let_def)
  next
    case False
    then have e: "copy_keys snap src dst (a # ps) r = copy_keys snap src dst ps ?r"
      by (simp add: Let_def)
    have 1: "map_of (keys r) p \<noteq> None \<longrightarrow> map_of (keys ?r) p \<noteq> None"
      by (simp add: present_put_container)
    have 2: "val_at r p name \<noteq> None \<longrightarrow> val_at ?r p name \<noteq> None"
      using val_present_put_container by blast
    from 1 2 Cons.IH[of ?r] show ?thesis unfolding e by blast
  qed
qed

lemma present_copyTree:
  "map_of (keys r) p \<noteq> None \<Longrightarrow> map_of (keys (snd (copyTree r h h'))) p \<noteq> None"
  "val_at r p name \<noteq> None \<Longrightarrow> val_at (snd (copyTree r h h')) p name \<noteq> None"
  using present_copy_keys[of r p "keys r" h h' "filter (prefix h) (map fst (keys r))" name]
  by (simp_all add: copyTree_def)

lemma present_RegCreateKeyExA:
  "map_of (keys r) p \<noteq> None \<Longrightarrow> map_of (keys (snd (RegCreateKeyExA r s))) p \<noteq> None"
  by (simp add: RegCreateKeyExA_def Let_def map_of_create_path)

text \<open>
  Claim C7. \<^verbatim>\<open>move\<close> deletes the source subtree only when the copy into the destination
  fully succeeded: in every execution in which opening the source, creating the
  destination or copying fails, every container of the store and every value of every
  container is still there afterwards, whatever the two keys are. In these executions
  the source subtree is left untouched: a failed open or create leaves the whole store
  as it was, and a failed copy leaves the source subtree as it was while the destination
  may be partially written, the source and the destination being separate subtrees
  (neither container lies inside the other's subtree).
\<close>

theorem move_failure_keeps_source:
  "(RegOpenKeyExA r (c_str (REG_PREFIX @ [BSL] @ keyFrom)) = None \<longrightarrow> move keyFrom keyTo r = r) \<and>
   (\<forall>hkeyFrom.
      RegOpenKeyExA r (c_str (REG_PREFIX @ [BSL] @ keyFrom)) = Some hkeyFrom \<and>
      fst (RegCreateKeyExA r (c_str (REG_PREFIX @ [BSL] @ keyTo))) = None \<longrightarrow>
      move keyFrom keyTo r = r) \<and>
   (\<forall>hkeyFrom hkeyTo r1.
      RegOpenKeyExA r (c_str (REG_PREFIX @ [BSL] @ keyFrom)) = Some hkeyFrom \<and>
      RegCreateKeyExA r (c_str (REG_PREFIX @ [BSL] @ keyTo)) = (Some hkeyTo, r1) \<and>
      fst (copyTree r1 hkeyFrom hkeyTo) \<noteq> ERROR_SUCCESS \<longrightarrow>
      (\<forall>q name.
         (map_of (keys r) q \<noteq> None \<longrightarrow> map_of (keys (move keyFrom keyTo r)) q \<noteq> None) \<and>
         (val_at r q name \<noteq> None \<longrightarrow> val_at (move keyFrom keyTo r) q name \<noteq> None)) \<and>
      (\<not> prefix hkeyFrom hkeyTo \<and> \<not> prefix hkeyTo hkeyFrom \<longrightarrow>
         subtree (move keyFrom keyTo r) hkeyFrom = subtree r hkeyFrom))"
proof (intro conjI allI impI)
  assume "RegOpenKeyExA r (c_str (REG_PREFIX @ [BSL] @ keyFrom)) = None"
  then show "move keyFrom keyTo r = r" by (simp add: move_def)
next
  fix hkeyFrom
  assume a: "RegOpenKeyExA r (c_str (REG_PREFIX @ [BSL] @ keyFrom)) = Some hkeyFrom \<and>
      fst (RegCreateKeyExA r (c_str (REG_PREFIX @ [BSL] @ keyTo))) = None"
  then have "snd (RegCreateKeyExA r (c_str (REG_PREFIX @ [BSL] @ keyTo))) = r"
    by (simp add: RegCreateKeyExA_def Let_def split: if_splits)
  with a show "move keyFrom keyTo r = r"
    by (cases "RegCreateKeyExA r (c_str (REG_PREFIX @ [BSL] @ keyTo))") (simp add: move_def)
next
  fix hkeyFrom hkeyTo r1 q name
  assume a: "RegOpenKeyExA r (c_str (REG_PREFIX @ [BSL] @ keyFrom)) = Some hkeyFrom \<and>
      RegCreateKeyExA r (c_str (REG_PREFIX @ [BSL] @ keyTo)) = (Some hkeyTo, r1) \<and>
      fst (copyTree r1 hkeyFrom hkeyTo) \<noteq> ERROR_SUCCESS"
  then have m: "move keyFrom keyTo r = snd (copyTree r1 hkeyFrom hkeyTo)"
    by (cases "copyTree r1 hkeyFrom hkeyTo") (simp add: move_def)
  from a have r1: "r1 = snd (RegCreateKeyExA r (c_str (REG_PREFIX @ [BSL] @ keyTo)))" by simp
  {
    assume "map_of (keys r) q \<noteq> None"
    then have "map_of (keys r1) q \<noteq> None" unfolding r1 by (rule present_RegCreateKeyExA)
    then show "map_of (keys (move keyFrom keyTo r)) q \<noteq> None"
      unfolding m by (rule present_copyTree(1))
  }
  {
    assume "val_at r q name \<noteq> None"
    then have "val_at r1 q name \<noteq> None" unfolding r1 by simp
    then show "val_at (move keyFrom keyTo r) q name \<noteq> None"
      unfolding m by (rule present_copyTree(2))
  }
next
  fix hkeyFrom hkeyTo r1
  assume a: "RegOpenKeyExA r (c_str (REG_PREFIX @ [BSL] @ keyFrom)) = Some hkeyFrom \<and>
      RegCreateKeyExA r (c_str (REG_PREFIX @ [BSL] @ keyTo)) = (Some hkeyTo, r1) \<and>
      fst (copyTree r1 hkeyFrom hkeyTo) \<noteq> ERROR_SUCCESS"
    and d: "\<not> prefix hkeyFrom hkeyTo \<and> \<not> prefix hkeyTo hkeyFrom"
  then have m: "move keyFrom keyTo r = snd (copyTree r1 hkeyFrom hkeyTo)"
    by (cases "copyTree r1 hkeyFrom hkeyTo") (simp add: move_def)
  have "subtree (snd (copyTree r1 hkeyFrom hkeyTo)) hkeyFrom = subtree r1 hkeyFrom"
    using d by (intro subtree_copyTree) simp_all
  also have "\<dots> = subtree r hkeyFrom"
    using a d by (intro subtree_RegCreateKeyExA[where s = "c_str (REG_PREFIX @ [BSL] @ keyTo)" and h' = hkeyTo]) simp_all
  finally show "subtree (move keyFrom keyTo r) hkeyFrom = subtree r hkeyFrom"
    by (simp add: m)
qed

theorem move_failure_keeps_source_witness:
  "RegOpenKeyExA locked_store (c_str (REG_PREFIX @ [BSL] @ Cameras_sep @ ''2'')) = None \<and>
   move (Cameras_sep @ ''2'') (Cameras_sep @ ''1'') locked_store = locked_store \<and>
   RegOpenKeyExA locked_store (c_str (REG_PREFIX @ [BSL] @ Cameras_sep @ ''1''))
     = Some (reg_root @ [''Cameras'', ''1'']) \<and>
   fst (RegCreateKeyExA locked_store
          (c_str (REG_PREFIX @ [BSL] @ Cameras_sep @ ''1'' @ [BSL] @ ''Formats''))) = None \<and>
   move (Cameras_sep @ ''1'') (Cameras_sep @ ''1'' @ [BSL] @ ''Formats'') locked_store = locked_store \<and>
   fst (RegCreateKeyExA locked_store (c_str (REG_PREFIX @ [BSL] @ Cameras_sep @ ''2'')))
     = Some (reg_root @ [''Cameras'', ''2'']) \<and>
   fst (copyTree (snd (RegCreateKeyExA locked_store (c_str (REG_PREFIX @ [BSL] @ Cameras_sep @ ''2''))))
          (reg_root @ [''Cameras'', ''1'']) (reg_root @ [''Cameras'', ''2''])) = ERROR_FAILURE \<and>
   subtree (move (Cameras_sep @ ''1'') (Cameras_sep @ ''2'') locked_store) (reg_root @ [''Cameras'', ''1''])
     = subtree locked_store (reg_root @ [''Cameras'', ''1'']) \<and>
   val_at (move (Cameras_sep @ ''1'') (Cameras_sep @ ''2'') locked_store)
       (reg_root @ [''Cameras'', ''1'']) ''path'' \<noteq> None \<and>
   fst (RegCreateKeyExA locked_store
          (c_str (REG_PREFIX @ [BSL] @ Cameras_sep @ ''1'' @ [BSL] @ ''backup'')))
     = Some (reg_root @ [''Cameras'', ''1'', ''backup'']) \<and>
   fst (copyTree
          (snd (RegCreateKeyExA locked_store
                  (c_str (REG_PREFIX @ [BSL] @ Cameras_sep @ ''1'' @ [BSL] @ ''backup''))))
          (reg_root @ [''Cameras'', ''1'']) (reg_root @ [''Cameras'', ''1'', ''backup''])) = ERROR_FAILURE \<and>
   map_of (keys (move (Cameras_sep @ ''1'') (Cameras_sep @ ''1'' @ [BSL] @ ''backup'') locked_store))
       (reg_root @ [''Cameras'', ''1'']) \<noteq> None \<and>
   val_at (move (Cameras_sep @ ''1'') (Cameras_sep @ ''1'' @ [BSL] @ ''backup'') locked_store)
       (reg_root @ [''Cameras'', ''1'']) ''path'' \<noteq> None \<and>
   map_of (keys (move (Cameras_sep @ ''1'') (Cameras_sep @ ''1'' @ [BSL] @ ''backup'') locked_store))
       (reg_root @ [''Cameras'', ''1'', ''Formats'']) \<noteq> None \<and>
   val_at (move (Cameras_sep @ ''1'') (Cameras_sep @ ''1'' @ [BSL] @ ''backup'') locked_store)
       (reg_root @ [''Cameras'', ''1'', ''Formats'']) ''size'' \<noteq> None"
proof -
  have 0: "RegOpenKeyExA locked_store (c_str (REG_PREFIX @ [BSL] @ Cameras_sep @ ''2'')) = None"
    by (simp add: Let_def RegOpenKeyExA_def move_path_camera[OF segment_examples(2), simplified]
          locked_store_def reg_root_def)
  have 1: "RegOpenKeyExA locked_store (c_str (REG_PREFIX @ [BSL] @ Cameras_sep @ ''1''))
     = Some (reg_root @ [''Cameras'', ''1''])"
    by (simp add: Let_def RegOpenKeyExA_def move_path_camera[OF segment_examples(1), simplified] locked_store_def
          reg_root_def)
  have f: "segment ''Formats''" by (simp add: segment_def)
  have c: "fst (RegCreateKeyExA locked_store
          (c_str (REG_PREFIX @ [BSL] @ Cameras_sep @ ''1'' @ [BSL] @ ''Formats''))) = None"
    by (simp add: Let_def RegCreateKeyExA_def
          move_path_camera_sub[OF segment_examples(1) f, simplified] locked_store_def reg_root_def)
  obtain r1 where 2: "RegCreateKeyExA locked_store (c_str (REG_PREFIX @ [BSL] @ Cameras_sep @ ''2''))
     = (Some (reg_root @ [''Cameras'', ''2'']), r1)"
    by (simp add: Let_def RegCreateKeyExA_def move_path_camera[OF segment_examples(2), simplified] locked_store_def
          reg_root_def)
  have 3: "fst (copyTree (snd (RegCreateKeyExA locked_store (c_str (REG_PREFIX @ [BSL] @ Cameras_sep @ ''2''))))
          (reg_root @ [''Cameras'', ''1'']) (reg_root @ [''Cameras'', ''2''])) = ERROR_FAILURE"
    by (simp add: Let_def RegCreateKeyExA_def move_path_camera[OF segment_examples(2), simplified] locked_store_def
          reg_root_def copyTree_def create_path_def ensure_key_def put_container_def)
  have 4: "\<not> prefix (reg_root @ [''Cameras'', ''1'']) (reg_root @ [''Cameras'', ''2''])"
    "\<not> prefix (reg_root @ [''Cameras'', ''2'']) (reg_root @ [''Cameras'', ''1''])"
    by simp_all
  obtain r1' where 5: "RegCreateKeyExA locked_store
          (c_str (REG_PREFIX @ [BSL] @ Cameras_sep @ ''1'' @ [BSL] @ ''backup''))
     = (Some (reg_root @ [''Cameras'', ''1'', ''backup'']), r1')"
    by (simp add: Let_def RegCreateKeyExA_def move_path_camera_sub[OF segment_examples(1,3), simplified]
          locked_store_def reg_root_def)
  have 6: "fst (copyTree
          (snd (RegCreateKeyExA locked_store
                  (c_str (REG_PREFIX @ [BSL] @ Cameras_sep @ ''1'' @ [BSL] @ ''backup''))))
          (reg_root @ [''Cameras'', ''1'']) (reg_root @ [''Cameras'', ''1'', ''backup''])) = ERROR_FAILURE"
    by (simp add: Let_def RegCreateKeyExA_def move_path_camera_sub[OF segment_examples(1,3), simplified]
          locked_store_def reg_root_def copyTree_def create_path_def ensure_key_def put_container_def)
  have 7: "map_of (keys locked_store) (reg_root @ [''Cameras'', ''1'']) \<noteq> None"
    "val_at locked_store (reg_root @ [''Cameras'', ''1'']) ''path'' \<noteq> None"
    "map_of (keys locked_store) (reg_root @ [''Cameras'', ''1'', ''Formats'']) \<noteq> None"
    "val_at locked_store (reg_root @ [''Cameras'', ''1'', ''Formats'']) ''size'' \<noteq> None"
    by (simp_all add: locked_store_def val_at_def reg_root_def)
  have a: "move (Cameras_sep @ ''2'') (Cameras_sep @ ''1'') locked_store = locked_store"
    using move_failure_keeps_source [of locked_store "Cameras_sep @ ''2''" "Cameras_sep @ ''1''"] 0
    by simp
  have b: "move (Cameras_sep @ ''1'') (Cameras_sep @ ''1'' @ [BSL] @ ''Formats'') locked_store
           = locked_store"
    using move_failure_keeps_source [of locked_store "Cameras_sep @ ''1''"
        "Cameras_sep @ ''1'' @ [BSL] @ ''Formats''"] 1 c
    by simp
  have d: "subtree (move (Cameras_sep @ ''1'') (Cameras_sep @ ''2'') locked_store)
             (reg_root @ [''Cameras'', ''1''])
           = subtree locked_store (reg_root @ [''Cameras'', ''1'']) \<and>
     val_at (move (Cameras_sep @ ''1'') (Cameras_sep @ ''2'') locked_store)
       (reg_root @ [''Cameras'', ''1'']) ''path'' \<noteq> None"
    using move_failure_keeps_source [of locked_store "Cameras_sep @ ''1''" "Cameras_sep @ ''2''"]
      1 2 3 4 7(2)
    by simp
  have e: "map_of (keys (move (Cameras_sep @ ''1'') (Cameras_sep @ ''1'' @ [BSL] @ ''backup'') locked_store))
       (reg_root @ [''Cameras'', ''1'']) \<noteq> None \<and>
     val_at (move (Cameras_sep @ ''1'') (Cameras_sep @ ''1'' @ [BSL] @ ''backup'') locked_store)
       (reg_root @ [''Cameras'', ''1'']) ''path'' \<noteq> None \<and>
     map_of (keys (move (Cameras_sep @ ''1'') (Cameras_sep @ ''1'' @ [BSL] @ ''backup'') locked_store))
       (reg_root @ [''Cameras'', ''1'', ''Formats'']) \<noteq> None \<and>
     val_at (move (Cameras_sep @ ''1'') (Cameras_sep @ ''1'' @ [BSL] @ ''backup'') locked_store)
       (reg_root @ [''Cameras'', ''1'', ''Formats'']) ''size'' \<noteq> None"
    using move_failure_keeps_source [of locked_store "Cameras_sep @ ''1''"
        "Cameras_sep @ ''1'' @ [BSL] @ ''backup''"]
      1 5 6 7
    by simp
  from 0 1 2 3 5 6 a b c d e show ?thesis by simp
qed

text \<open>
  The two containers have to be separate for the source subtree to stay as it was: the
  destination is created before the copy starts, so a destination inside the source
  subtree is a new container of that subtree once the copy has failed.
\<close>

lemma move_into_own_subtree:
  "RegOpenKeyExA locked_store (c_str (REG_PREFIX @ [BSL] @ Cameras_sep @ ''1''))
     = Some (reg_root @ [''Cameras'', ''1'']) \<and>
   fst (RegCreateKeyExA locked_store
          (c_str (REG_PREFIX @ [BSL] @ Cameras_sep @ ''1'' @ [BSL] @ ''backup'')))
     = Some (reg_root @ [''Cameras'', ''1'', ''backup'']) \<and>
   fst (copyTree
          (snd (RegCreateKeyExA locked_store
                  (c_str (REG_PREFIX @ [BSL] @ Cameras_sep @ ''1'' @ [BSL] @ ''backup''))))
          (reg_root @ [''Cameras'', ''1'']) (reg_root @ [''Cameras'', ''1'', ''backup''])) = ERROR_FAILURE \<and>
   subtree (move (Cameras_sep @ ''1'') (Cameras_sep @ ''1'' @ [BSL] @ ''backup'') locked_store)
       (reg_root @ [''Cameras'', ''1''])
     \<noteq> subtree locked_store (reg_root @ [''Cameras'', ''1''])"
proof -
  have 1: "RegOpenKeyExA locked_store (c_str (REG_PREFIX @ [BSL] @ Cameras_sep @ ''1''))
     = Some (reg_root @ [''Cameras'', ''1''])"
    by (simp add: Let_def RegOpenKeyExA_def move_path_camera[OF segment_examples(1), simplified] locked_store_def
          reg_root_def)
  have 2: "fst (RegCreateKeyExA locked_store
          (c_str (REG_PREFIX @ [BSL] @ Cameras_sep @ ''1'' @ [BSL] @ ''backup'')))
     = Some (reg_root @ [''Cameras'', ''1'', ''backup''])"
    by (simp add: Let_def RegCreateKeyExA_def move_path_camera_sub[OF segment_examples(1,3), simplified]
          locked_store_def reg_root_def)
  have 3: "fst (copyTree
          (snd (RegCreateKeyExA locked_store
                  (c_str (REG_PREFIX @ [BSL] @ Cameras_sep @ ''1'' @ [BSL] @ ''backup''))))
          (reg_root @ [''Cameras'', ''1'']) (reg_root @ [''Cameras'', ''1'', ''backup''])) = ERROR_FAILURE"
    by (simp add: Let_def RegCreateKeyExA_def move_path_camera_sub[OF segment_examples(1,3), simplified]
          locked_store_def reg_root_def copyTree_def create_path_def ensure_key_def put_container_def)
  have 4: "subtree (move (Cameras_sep @ ''1'') (Cameras_sep @ ''1'' @ [BSL] @ ''backup'') locked_store)
       (reg_root @ [''Cameras'', ''1''])
     \<noteq> subtree locked_store (reg_root @ [''Cameras'', ''1''])"
    by (simp add: Let_def move_def RegOpenKeyExA_def RegCreateKeyExA_def move_path_camera[OF segment_examples(1), simplified]
          move_path_camera_sub[OF segment_examples(1,3), simplified]
          locked_store_def reg_root_def copyTree_def create_path_def ensure_key_def put_container_def
          subtree_def)
  from 1 2 3 4 show ?thesis by simp
qed

text \<open>
  The deletion itself: with a source key that ends with the separator, \<^verbatim>\<open>deleteKey\<close>
  takes the key for a container, and on an available store, where the copy succeeds,
  nothing is left of the source subtree.
\<close>

lemma components_trailing: "components cur (a @ [BSL]) = components cur a"
  by (induction a arbitrary: cur) auto

lemma key_path_trailing: "key_path (a @ [BSL]) = key_path a"
  by (simp add: key_path_def components_trailing)

lemma subtree_deleteTree:
  "key_path s \<notin> set (unavailable r) \<Longrightarrow> subtree (deleteTree r s) (key_path s) = []"
  by (auto simp: subtree_def deleteTree_def Let_def filter_empty_conv)

lemma move_trailing_separator_deletes:
  assumes "unavailable r = []" "NUL \<notin> set a" "map_of (keys r) (reg_root @ key_path a) \<noteq> None"
  shows "subtree (move (a @ [BSL]) keyTo r) (reg_root @ key_path a) = []"
proof -
  let ?h = "reg_root @ key_path a"
  let ?t = "c_str (REG_PREFIX @ [BSL] @ keyTo)"
  have p: "key_path (c_str (REG_PREFIX @ BSL # a @ [BSL])) = ?h"
    using move_path[of "a @ [BSL]"] assms(2) by (simp add: key_path_trailing)
  have o: "RegOpenKeyExA r (c_str (REG_PREFIX @ [BSL] @ a @ [BSL])) = Some ?h"
    using assms(1,3) by (simp add: RegOpenKeyExA_def Let_def p)
  obtain r1 where c: "RegCreateKeyExA r ?t = (Some (key_path ?t), r1)"
    using assms(1) by (simp add: RegCreateKeyExA_def Let_def)
  then have u1: "unavailable r1 = []"
    using unavailable_RegCreateKeyExA[of r ?t] assms(1) by simp
  obtain r2 where t: "copyTree r1 ?h (key_path ?t) = (ERROR_SUCCESS, r2)"
    using copyTree_available(1)[OF u1, of ?h "key_path ?t"]
    by (cases "copyTree r1 ?h (key_path ?t)") simp
  then have u2: "unavailable r2 = []"
    using copyTree_available(2)[OF u1, of ?h "key_path ?t"] by simp
  have m: "move (a @ [BSL]) keyTo r = deleteTree r2 (REG_PREFIX @ BSL # a)"
    using o c t by (simp add: move_def deleteKey_tree[OF assms(2)])
  have k: "key_path (REG_PREFIX @ BSL # a) = ?h"
    by (simp add: key_path_REG_PREFIX key_path_BSL)
  show ?thesis
    unfolding m using subtree_deleteTree[of "REG_PREFIX @ BSL # a" r2] u2 by (simp add: k)
qed

end
